theory Spec2Isabelle
  imports Main "HOL-Library.Word"
begin

section \<open>Bytes, hexadecimal text and the digest function\<close>

text \<open>
  A Node.js \<open>Buffer\<close> is a list of bytes. The digest function behind
  \<open>crypto.createHash('sha256')\<close> belongs to the Node.js runtime, not to this
  repository: it is the parameter \<open>H\<close> of every function below. The only fact about
  SHA-256 that any result needs is that a digest has 32 bytes (\<open>digest32\<close>).
\<close>

type_synonym byte = "8 word"

type_synonym hashfn = "byte list \<Rightarrow> byte list"

definition digest32 :: "hashfn \<Rightarrow> bool" where
  "digest32 H \<longleftrightarrow> (\<forall>bs. length (H bs) = 32)"

definition first32 :: hashfn where
  \<comment> \<open>a function with 32-byte results, at which the theorems are instantiated\<close>
  "first32 bs = take 32 (bs @ replicate 32 0)"

text \<open>A JavaScript string is a list of code units; a \<open>char\<close> is a code unit below 256.\<close>

definition is_lower_hex_char :: "char \<Rightarrow> bool" where
  \<comment> \<open>the character class \<open>[0-9a-f]\<close>\<close>
  "is_lower_hex_char c =
     (let n = (of_char c :: nat) in (48 \<le> n \<and> n \<le> 57) \<or> (97 \<le> n \<and> n \<le> 102))"

definition hex_value :: "char \<Rightarrow> nat option" where
  \<comment> \<open>value of one hexadecimal digit in either letter case, as the \<open>'hex'\<close> decoder reads it\<close>
  "hex_value c =
     (let n = (of_char c :: nat) in
      if 48 \<le> n \<and> n \<le> 57 then Some (n - 48)
      else if 97 \<le> n \<and> n \<le> 102 then Some (n - 87)
      else if 65 \<le> n \<and> n \<le> 70 then Some (n - 55)
      else None)"

definition hex_digit :: "nat \<Rightarrow> char" where
  \<comment> \<open>the lowercase digit of a value below 16\<close>
  "hex_digit n = char_of (if n < 10 then 48 + n else 87 + n)"

fun hex_decode :: "string \<Rightarrow> byte list" where
  \<comment> \<open>\<open>Buffer.from(s, 'hex')\<close>: two digits a byte, stopping at the first pair that is
      not hexadecimal; a trailing single digit is dropped\<close>
  "hex_decode (a # b # rest) =
     (case hex_value a of
        None \<Rightarrow> []
      | Some x \<Rightarrow> (case hex_value b of
                    None \<Rightarrow> []
                  | Some y \<Rightarrow> of_nat (16 * x + y) # hex_decode rest))"
| "hex_decode _ = []"

definition byte_to_hex :: "byte \<Rightarrow> string" where
  "byte_to_hex b = [hex_digit (unat b div 16), hex_digit (unat b mod 16)]"

definition hex_encode :: "byte list \<Rightarrow> string" where
  \<comment> \<open>\<open>buf.toString('hex')\<close>, the encoding of \<open>digest('hex')\<close>\<close>
  "hex_encode bs = concat (map byte_to_hex bs)"

text \<open>
  A \<open>Hash\<close> object collects the bytes given to \<open>update\<close>; \<open>digest('hex')\<close> is the
  hexadecimal text of the digest of all of them.
\<close>

type_synonym hash_object = "byte list"

definition createHash :: hash_object where
  "createHash = []"

definition update :: "hash_object \<Rightarrow> byte list \<Rightarrow> hash_object" where
  "update h bs = h @ bs"

definition digest_hex :: "hashfn \<Rightarrow> hash_object \<Rightarrow> string" where
  "digest_hex H h = hex_encode (H h)"

subsection \<open>Encoding and decoding are inverse\<close>

lemma digest32_first32: "digest32 first32"
  by (simp add: digest32_def first32_def min_def)

lemma hex_value_hex_digit: "n < 16 \<Longrightarrow> hex_value (hex_digit n) = Some n"
  by (simp add: hex_value_def hex_digit_def)

lemma is_lower_hex_char_hex_digit: "n < 16 \<Longrightarrow> is_lower_hex_char (hex_digit n)"
  by (simp add: is_lower_hex_char_def hex_digit_def)

lemma hex_digit_hex_value:
  "is_lower_hex_char c \<Longrightarrow> \<exists>v < 16. hex_value c = Some v \<and> hex_digit v = c"
  by (auto simp: is_lower_hex_char_def hex_value_def hex_digit_def Let_def)

lemma unat_byte_less: "unat (b :: byte) < 256"
  using unsigned_less [of b, where ?'a = nat] by simp

lemma hex_decode_byte_to_hex: "hex_decode (byte_to_hex b @ rest) = b # hex_decode rest"
proof -
  have "unat b div 16 < 16" "unat b mod 16 < 16"
    using unat_byte_less [of b] by simp_all
  then show ?thesis
    by (simp add: byte_to_hex_def hex_value_hex_digit)
qed

lemma hex_decode_encode: "hex_decode (hex_encode bs) = bs"
  by (induction bs) (simp_all add: hex_encode_def hex_decode_byte_to_hex)

lemma length_hex_encode: "length (hex_encode bs) = 2 * length bs"
  by (induction bs) (simp_all add: hex_encode_def byte_to_hex_def)

lemma lower_hex_encode: "list_all is_lower_hex_char (hex_encode bs)"
proof (induction bs)
  case Nil
  show ?case by (simp add: hex_encode_def)
next
  case (Cons b bs)
  have "unat b div 16 < 16" "unat b mod 16 < 16"
    using unat_byte_less [of b] by simp_all
  with Cons show ?case
    by (simp add: hex_encode_def byte_to_hex_def is_lower_hex_char_hex_digit)
qed

lemma hex_encode_decode_length:
  "list_all is_lower_hex_char str \<Longrightarrow> even (length str) \<Longrightarrow>
   hex_encode (hex_decode str) = str \<and> 2 * length (hex_decode str) = length str"
proof (induction str rule: hex_decode.induct)
  case (1 a b rest)
  from "1.prems" obtain x y where x: "x < 16" "hex_value a = Some x" "hex_digit x = a"
    and y: "y < 16" "hex_value b = Some y" "hex_digit y = b"
    using hex_digit_hex_value [of a] hex_digit_hex_value [of b] by auto
  have u: "unat (of_nat (16 * x + y) :: byte) = 16 * x + y"
    using x(1) y(1) by (intro of_nat_inverse) simp_all
  have "byte_to_hex (of_nat (16 * x + y)) = [a, b]"
    unfolding byte_to_hex_def u using x y by simp
  moreover have "hex_encode (hex_decode rest) = rest \<and> 2 * length (hex_decode rest) = length rest"
    using "1.IH" [OF x(2) y(2)] "1.prems" by simp
  ultimately show ?case
    using x(2) y(2) by (simp add: hex_encode_def)
qed (simp_all add: hex_encode_def)

section \<open>JavaScript values, errors and the store of arrays\<close>

datatype js_number = Integral int | NonIntegral
  \<comment> \<open>\<open>Number.isInteger\<close> holds of \<open>Integral\<close> only; \<open>NonIntegral\<close> stands for a
      fraction, an infinity or NaN\<close>

type_synonym addr = nat

datatype js_error = TypeError | RangeError | SystemError string | CallerError string
  \<comment> \<open>\<open>SystemError\<close>: an error object delivered by the runtime, named by its code;
      \<open>CallerError\<close>: whatever else code of the caller throws, named by its message\<close>

datatype to_string = ReturnsString | Throws js_error
  \<comment> \<open>what the conversion of an object to a string does: it runs the \<open>toString\<close> of the
      object, code of the caller, which returns a string or throws; what that code does to
      the objects of the caller is its own and is not followed\<close>

datatype js_value =
    JSUndefined
  | JSNull
  | JSBoolean bool
  | JSNumber js_number
  | JSString string
  | JSArray addr
  | JSObject to_string
  \<comment> \<open>\<open>JSObject\<close>: an object that is not an argument array, with what its conversion to a
      string does; an array that is an element of another array is such an object\<close>

text \<open>
  Arrays are objects with identity: a value \<open>JSArray a\<close> refers to the array stored at
  position \<open>a\<close> of the store. \<open>hash_calls\<close> counts the digests computed so far.
\<close>

record js_state =
  heap :: "js_value list list"
  hash_calls :: nat

definition array_at :: "js_state \<Rightarrow> addr \<Rightarrow> js_value list" where
  \<comment> \<open>the elements of the array a reference points to (references are never dangling)\<close>
  "array_at s a = (if a < length (heap s) then heap s ! a else [])"

definition array_get :: "js_value list \<Rightarrow> nat \<Rightarrow> js_value" where
  \<comment> \<open>\<open>xs[i]\<close>: reading past the end gives \<open>undefined\<close>\<close>
  "array_get xs i = (if i < length xs then xs ! i else JSUndefined)"

definition new_array :: "js_value list \<Rightarrow> js_state \<Rightarrow> addr \<times> js_state" where
  \<comment> \<open>an array literal, a spread or the result of \<open>map\<close>: a fresh array\<close>
  "new_array xs s = (length (heap s), s\<lparr>heap := heap s @ [xs]\<rparr>)"

definition push :: "addr \<Rightarrow> js_value \<Rightarrow> js_state \<Rightarrow> js_state" where
  \<comment> \<open>\<open>arr.push(v)\<close> changes the array in place\<close>
  "push a v s = s\<lparr>heap := (heap s)[a := array_at s a @ [v]]\<rparr>"

section \<open>merkle.js\<close>

definition isValidSHA256Hex :: "js_value \<Rightarrow> bool" where
  \<comment> \<open>\<open>typeof hash === 'string' && /^[0-9a-f]{64}$/.test(hash)\<close>\<close>
  "isValidSHA256Hex hash =
     (case hash of
        JSString str \<Rightarrow> length str = 64 \<and> list_all is_lower_hex_char str
      | _ \<Rightarrow> False)"

definition Buffer_from_hex :: "js_value \<Rightarrow> js_error + byte list" where
  \<comment> \<open>\<open>Buffer.from(v, 'hex')\<close>: a string is decoded; \<open>undefined\<close>, which is what a read
      past the end of a level gives, raises a TypeError, as do \<open>null\<close>, booleans and
      numbers. A level holds strings only (it is made by \<open>map\<close> with \<open>toLowerCase\<close> or
      by \<open>push\<close> of a digest), so no array or object gets here; the model gives them the
      same error.\<close>
  "Buffer_from_hex v = (case v of JSString str \<Rightarrow> Inr (hex_decode str) | _ \<Rightarrow> Inl TypeError)"

definition hashPair ::
  "hashfn \<Rightarrow> js_value \<Rightarrow> js_value \<Rightarrow> js_state \<Rightarrow> (js_error + string) \<times> js_state" where
  "hashPair H leftHex rightHex s =
     (case Buffer_from_hex leftHex of
        Inl e \<Rightarrow> (Inl e, s)
      | Inr leftBuffer \<Rightarrow>
          (case Buffer_from_hex rightHex of
             Inl e \<Rightarrow> (Inl e, s)
           | Inr rightBuffer \<Rightarrow>
               (Inr (digest_hex H (update createHash (leftBuffer @ rightBuffer))),
                s\<lparr>hash_calls := hash_calls s + 1\<rparr>)))"

text \<open>
  The \<open>for\<close> loop of \<open>buildNextLevel\<close>: \<open>nodes\<close> and \<open>parent\<close> are references, and
  \<open>nodes.length\<close> is read again at every iteration.
\<close>

function buildNextLevel_loop ::
  "hashfn \<Rightarrow> addr \<Rightarrow> addr \<Rightarrow> nat \<Rightarrow> js_state \<Rightarrow> (js_error + addr) \<times> js_state" where
  "buildNextLevel_loop H nodes parent i s =
     (if i < length (array_at s nodes) then
        (case hashPair H (array_get (array_at s nodes) i) (array_get (array_at s nodes) (i + 1)) s of
           (Inl e, s') \<Rightarrow> (Inl e, s')
         | (Inr h, s') \<Rightarrow> buildNextLevel_loop H nodes parent (i + 2) (push parent (JSString h) s'))
      else (Inr parent, s))"
  by pat_completeness auto
termination
  apply (relation "measure (\<lambda>(H, nodes, parent, i, s). length (array_at s nodes) - i)")
   apply simp
  apply (clarsimp simp: hashPair_def split: sum.splits)
  apply (auto simp: push_def array_at_def nth_list_update split: if_splits)
  done

declare buildNextLevel_loop.simps [simp del]

definition buildNextLevel ::
  "hashfn \<Rightarrow> addr \<Rightarrow> js_state \<Rightarrow> (js_error + addr) \<times> js_state" where
  "buildNextLevel H level s =
     (let lv = array_at s level;
          (nodes, s1) = (if length lv mod 2 = 0 then (level, s)
                         else new_array (lv @ [array_get lv (length lv - 1)]) s);
          (parent, s2) = new_array [] s1
      in buildNextLevel_loop H nodes parent 0 s2)"

lemma hashPair_heap: "hashPair H l r s = (x, s') \<Longrightarrow> heap s' = heap s"
  by (auto simp: hashPair_def split: sum.splits)

lemma array_at_push_other: "a \<noteq> p \<Longrightarrow> array_at (push p v s) a = array_at s a"
  by (simp add: push_def array_at_def)

lemma array_at_push_same:
  "p < length (heap s) \<Longrightarrow> array_at (push p v s) p = array_at s p @ [v]"
  by (simp add: push_def array_at_def)

lemma length_heap_push: "length (heap (push p v s)) = length (heap s)"
  by (simp add: push_def)

lemma array_at_heap_cong: "heap s' = heap s \<Longrightarrow> array_at s' a = array_at s a"
  by (simp add: array_at_def)

lemma array_at_hash_calls: "array_at (s\<lparr>hash_calls := n\<rparr>) a = array_at s a"
  by (simp add: array_at_def)

lemma buildNextLevel_loop_length:
  "buildNextLevel_loop H nodes parent i s = (Inr r, s') \<Longrightarrow> nodes \<noteq> parent \<Longrightarrow>
   parent < length (heap s) \<Longrightarrow>
   r = parent \<and> length (array_at s' parent) =
     length (array_at s parent) + (length (array_at s nodes) - i + 1) div 2"
proof (induction H nodes parent i s rule: buildNextLevel_loop.induct)
  case (1 H nodes parent i s)
  show ?case
  proof (cases "i < length (array_at s nodes)")
    case False
    with "1.prems" show ?thesis
      by (simp add: buildNextLevel_loop.simps [of H nodes parent i s])
  next
    case True
    obtain x s1 where hp:
      "hashPair H (array_get (array_at s nodes) i) (array_get (array_at s nodes) (i + 1)) s = (x, s1)"
      by (cases "hashPair H (array_get (array_at s nodes) i) (array_get (array_at s nodes) (i + 1)) s")
    have unf: "buildNextLevel_loop H nodes parent i s =
        (case x of Inl e \<Rightarrow> (Inl e, s1)
         | Inr h \<Rightarrow> buildNextLevel_loop H nodes parent (i + 2) (push parent (JSString h) s1))"
      by (subst buildNextLevel_loop.simps) (simp only: True hp if_True prod.case)
    from "1.prems"(1) obtain h where x: "x = Inr h"
      and rec: "buildNextLevel_loop H nodes parent (i + 2) (push parent (JSString h) s1) = (Inr r, s')"
      unfolding unf by (cases x) simp_all
    have hs: "heap s1 = heap s"
      using hp by (rule hashPair_heap)
    have ih: "r = parent \<and> length (array_at s' parent) =
        length (array_at (push parent (JSString h) s1) parent)
        + (length (array_at (push parent (JSString h) s1) nodes) - (i + 2) + 1) div 2"
      using "1.IH" [OF True hp [symmetric] x rec "1.prems"(2)] "1.prems"(3) hs
      by (simp add: length_heap_push)
    have as: "array_at s1 a = array_at s a" for a
      using hs by (rule array_at_heap_cong)
    have n: "array_at (push parent (JSString h) s1) nodes = array_at s nodes"
      using "1.prems"(2) by (simp add: array_at_push_other as)
    have p: "array_at (push parent (JSString h) s1) parent = array_at s parent @ [JSString h]"
      using "1.prems"(3) hs by (simp add: array_at_push_same as)
    from ih n p True show ?thesis
      by (simp, arith)
  qed
qed

text \<open>
  The reduction in the words of the specification: a parent is the digest of the decoded
  bytes of its two children; consecutive pairs are hashed left to right; the last element
  of a level of odd length is paired with itself; levels are reduced until one digest is left.
\<close>

definition spec_parent :: "hashfn \<Rightarrow> string \<Rightarrow> string \<Rightarrow> string" where
  "spec_parent H l r = hex_encode (H (hex_decode l @ hex_decode r))"

fun spec_next_level :: "hashfn \<Rightarrow> string list \<Rightarrow> string list" where
  "spec_next_level H (l # r # rest) = spec_parent H l r # spec_next_level H rest"
| "spec_next_level H [l] = [spec_parent H l l]"
| "spec_next_level H [] = []"

lemma length_spec_next_level: "length (spec_next_level H level) = (length level + 1) div 2"
  by (induction H level rule: spec_next_level.induct) simp_all

function spec_root :: "hashfn \<Rightarrow> string list \<Rightarrow> string option" where
  "spec_root H [] = None"
| "spec_root H [d] = Some d"
| "spec_root H (l # r # rest) = spec_root H (spec_next_level H (l # r # rest))"
  by pat_completeness auto
termination
  by (relation "measure (\<lambda>(H, level). length level)") (simp_all add: length_spec_next_level)

lemma buildNextLevel_loop_strings:
  assumes "array_at s nodes = map JSString xs" and "nodes \<noteq> parent"
    and "parent < length (heap s)" and "even (length xs - i)" and "i \<le> length xs"
  shows "buildNextLevel_loop H nodes parent i s =
    (Inr parent,
     s\<lparr>heap := (heap s)[parent := array_at s parent @ map JSString (spec_next_level H (drop i xs))],
       hash_calls := hash_calls s + (length xs - i) div 2\<rparr>)"
  using assms
proof (induction "length xs - i" arbitrary: i s rule: less_induct)
  case less
  show ?case
  proof (cases "i < length xs")
    case False
    with less.prems have i: "i = length xs" by simp
    have "(heap s)[parent := array_at s parent] = heap s"
      using less.prems(3) by (simp add: array_at_def)
    then show ?thesis
      by (subst buildNextLevel_loop.simps) (simp add: less.prems(1) i)
  next
    case True
    have "length xs - i \<noteq> Suc 0"
    proof
      assume one: "length xs - i = Suc 0"
      from less.prems(4) show False
        unfolding one by simp
    qed
    with True have i2: "i + 1 < length xs" "i + 2 \<le> length xs"
      by simp_all
    define h where "h = spec_parent H (xs ! i) (xs ! (i + 1))"
    define s1 where "s1 = s\<lparr>hash_calls := hash_calls s + 1\<rparr>"
    define s2 where "s2 = push parent (JSString h) s1"
    have hp: "hashPair H (array_get (map JSString xs) i) (array_get (map JSString xs) (i + 1)) s
              = (Inr h, s1)"
      using True i2
      by (simp add: array_get_def hashPair_def Buffer_from_hex_def digest_hex_def
          update_def createHash_def h_def s1_def spec_parent_def)
    have unf: "buildNextLevel_loop H nodes parent i s = buildNextLevel_loop H nodes parent (i + 2) s2"
      by (subst buildNextLevel_loop.simps)
        (simp only: less.prems(1) length_map True hp if_True prod.case sum.case s2_def)
    have n2: "array_at s2 nodes = map JSString xs"
      using less.prems(1,2) by (simp add: s2_def s1_def array_at_push_other array_at_hash_calls)
    have p2: "parent < length (heap s2)"
      using less.prems(3) by (simp add: s2_def s1_def push_def)
    have e2: "even (length xs - (i + 2))"
      using less.prems(4) True by simp
    have "buildNextLevel_loop H nodes parent (i + 2) s2 =
      (Inr parent,
       s2\<lparr>heap := (heap s2)[parent := array_at s2 parent
                @ map JSString (spec_next_level H (drop (i + 2) xs))],
         hash_calls := hash_calls s2 + (length xs - (i + 2)) div 2\<rparr>)"
      using True by (intro less.hyps n2 less.prems(2) p2 e2 i2(2)) simp
    moreover have "drop i xs = xs ! i # xs ! (i + 1) # drop (i + 2) xs"
      using True i2 by (simp add: Cons_nth_drop_Suc)
    moreover have "1 + (length xs - (i + 2)) div 2 = (length xs - i) div 2"
      using i2(2) by arith
    ultimately show ?thesis
      unfolding unf using less.prems(3)
      by (simp add: s2_def s1_def push_def array_at_def h_def)
  qed
qed

lemma buildNextLevel_length:
  assumes "buildNextLevel H level s = (Inr nxt, s')" and "1 < length (array_at s level)"
  shows "length (array_at s' nxt) = (length (array_at s level) + 1) div 2"
proof -
  let ?lv = "array_at s level"
  from assms(2) have lv: "level < length (heap s)"
    by (auto simp: array_at_def split: if_splits)
  show ?thesis
  proof (cases "length ?lv mod 2 = 0")
    case True
    let ?s2 = "s\<lparr>heap := heap s @ [[]]\<rparr>"
    from assms(1) True
    have run: "buildNextLevel_loop H level (length (heap s)) 0 ?s2 = (Inr nxt, s')"
      by (simp add: buildNextLevel_def new_array_def Let_def)
    have p: "array_at ?s2 (length (heap s)) = []" and n: "array_at ?s2 level = ?lv"
      using lv by (simp_all add: array_at_def nth_append)
    have "level \<noteq> length (heap s)" and "length (heap s) < length (heap ?s2)"
      using lv by simp_all
    from buildNextLevel_loop_length [OF run this]
    have "nxt = length (heap s)"
      and "length (array_at s' (length (heap s))) = (length ?lv + 1) div 2"
      unfolding p n by simp_all
    then show ?thesis
      by simp
  next
    case False
    let ?nodes = "?lv @ [array_get ?lv (length ?lv - 1)]"
    let ?s2 = "s\<lparr>heap := heap s @ [?nodes] @ [[]]\<rparr>"
    from assms(1) False
    have run: "buildNextLevel_loop H (length (heap s)) (Suc (length (heap s))) 0 ?s2 = (Inr nxt, s')"
      by (simp add: buildNextLevel_def new_array_def Let_def)
    have p: "array_at ?s2 (Suc (length (heap s))) = []"
      and n: "array_at ?s2 (length (heap s)) = ?nodes"
      by (simp_all add: array_at_def nth_append)
    have "length (heap s) \<noteq> Suc (length (heap s))"
      and "Suc (length (heap s)) < length (heap ?s2)"
      by simp_all
    from buildNextLevel_loop_length [OF run this]
    have "nxt = Suc (length (heap s))"
      and "length (array_at s' (Suc (length (heap s)))) = (length ?nodes + 1) div 2"
      unfolding p n by simp_all
    then show ?thesis
      using False by (simp, presburger)
  qed
qed

lemma buildNextLevel_decreases:
  assumes "buildNextLevel H level s = (Inr nxt, s')" and "1 < length (array_at s level)"
  shows "length (array_at s' nxt) < length (array_at s level)"
  using assms(2) unfolding buildNextLevel_length [OF assms] by arith

text \<open>The \<open>while\<close> loop of \<open>buildMerkleRoot\<close>; \<open>currentLevel\<close> is a reference.\<close>

function buildMerkleRoot_loop ::
  "hashfn \<Rightarrow> addr \<Rightarrow> js_state \<Rightarrow> (js_error + addr) \<times> js_state" where
  "buildMerkleRoot_loop H currentLevel s =
     (if length (array_at s currentLevel) > 1 then
        (case buildNextLevel H currentLevel s of
           (Inl e, s') \<Rightarrow> (Inl e, s')
         | (Inr nextLevel, s') \<Rightarrow> buildMerkleRoot_loop H nextLevel s')
      else (Inr currentLevel, s))"
  by pat_completeness auto
termination
  apply (relation "measure (\<lambda>(H, currentLevel, s). length (array_at s currentLevel))")
   apply simp
  apply (simp add: buildNextLevel_decreases)
  done

declare buildMerkleRoot_loop.simps [simp del]

primrec findIndex :: "('a \<Rightarrow> bool) \<Rightarrow> 'a list \<Rightarrow> int" where
  \<comment> \<open>\<open>xs.findIndex(P)\<close>: the first index whose element satisfies \<open>P\<close>, or \<open>-1\<close>\<close>
  "findIndex P [] = - 1"
| "findIndex P (x # xs) =
     (if P x then 0 else (let r = findIndex P xs in if r = - 1 then - 1 else r + 1))"

definition lower_char :: "char \<Rightarrow> char" where
  \<comment> \<open>the lowercase form of a code unit below 256: \<open>A-Z\<close> and the capital letters of Latin-1\<close>
  "lower_char c =
     (let n = (of_char c :: nat) in
      if (65 \<le> n \<and> n \<le> 90) \<or> (192 \<le> n \<and> n \<le> 222 \<and> n \<noteq> 215) then char_of (n + 32) else c)"

definition toLowerCase :: "js_value \<Rightarrow> js_error + js_value" where
  \<comment> \<open>\<open>h.toLowerCase()\<close>; a value that is not a string has no such method\<close>
  "toLowerCase h = (case h of JSString str \<Rightarrow> Inr (JSString (map lower_char str)) | _ \<Rightarrow> Inl TypeError)"

fun map_toLowerCase :: "js_value list \<Rightarrow> js_error + js_value list" where
  \<comment> \<open>the elements of \<open>hashes.map((h) => h.toLowerCase())\<close>\<close>
  "map_toLowerCase [] = Inr []"
| "map_toLowerCase (h # hs) =
     (case toLowerCase h of
        Inl e \<Rightarrow> Inl e
      | Inr l \<Rightarrow> (case map_toLowerCase hs of Inl e \<Rightarrow> Inl e | Inr ls \<Rightarrow> Inr (l # ls)))"

definition ToString_error :: "js_value \<Rightarrow> js_error option" where
  \<comment> \<open>the error, if any, that the interpolation of a value into a template literal throws:
      none for \<open>undefined\<close>, \<open>null\<close>, booleans, numbers and strings; for an object, what its
      conversion throws\<close>
  "ToString_error v = (case v of JSObject (Throws e) \<Rightarrow> Some e | _ \<Rightarrow> None)"

definition buildMerkleRoot ::
  "hashfn \<Rightarrow> js_value \<Rightarrow> js_state \<Rightarrow> (js_error + js_value) \<times> js_state" where
  \<comment> \<open>the message of the TypeError for an invalid element interpolates the element, so that
      an error thrown by its conversion to a string takes the place of the TypeError\<close>
  "buildMerkleRoot H hashes s =
     (case hashes of
        JSArray a \<Rightarrow>
          (let hs = array_at s a;
               invalidIndex = findIndex (\<lambda>h. \<not> isValidSHA256Hex h) hs
           in
           if length hs = 0 then (Inl RangeError, s)
           else if invalidIndex \<noteq> - 1 then
             (case ToString_error (array_get hs (nat invalidIndex)) of
                Some e \<Rightarrow> (Inl e, s)
              | None \<Rightarrow> (Inl TypeError, s))
           else if length hs = 1 then (Inr (array_get hs 0), s)
           else
             (case map_toLowerCase hs of
                Inl e \<Rightarrow> (Inl e, s)
              | Inr lowered \<Rightarrow>
                  (let (currentLevel, s1) = new_array lowered s in
                   case buildMerkleRoot_loop H currentLevel s1 of
                     (Inl e, s2) \<Rightarrow> (Inl e, s2)
                   | (Inr level, s2) \<Rightarrow> (Inr (array_get (array_at s2 level) 0), s2))))
      | _ \<Rightarrow> (Inl TypeError, s))"

section \<open>Properties of merkle.js\<close>

lemma spec_next_level_duplicate_last:
  "odd (length level) \<Longrightarrow> spec_next_level H (level @ [last level]) = spec_next_level H level"
proof (induction H level rule: spec_next_level.induct)
  case (1 H l r rest)
  then have "rest \<noteq> []" by auto
  with 1 show ?case by simp
qed simp_all

lemma spec_root_Some: "level \<noteq> [] \<Longrightarrow> \<exists>root. spec_root H level = Some root"
proof (induction H level rule: spec_root.induct)
  case (3 H l r rest)
  have "length (spec_next_level H (l # r # rest)) \<noteq> 0"
    unfolding length_spec_next_level by simp
  then have "spec_next_level H (l # r # rest) \<noteq> []"
    by (simp only: length_0_conv not_False_eq_True)
  with 3 show ?case by simp
qed simp_all

lemma buildNextLevel_strings:
  assumes lv: "array_at s level = map JSString xs" and ne: "xs \<noteq> []"
  shows "buildNextLevel H level s =
    (Inr (if even (length xs) then length (heap s) else Suc (length (heap s))),
     s\<lparr>heap := heap s @ (if even (length xs) then [] else [map JSString (xs @ [last xs])])
              @ [map JSString (spec_next_level H xs)],
       hash_calls := hash_calls s + (length xs + 1) div 2\<rparr>)"
proof (cases "even (length xs)")
  case True
  let ?s2 = "s\<lparr>heap := heap s @ [[]]\<rparr>"
  from lv ne have lt: "level < length (heap s)"
    by (auto simp: array_at_def split: if_splits)
  have n: "array_at ?s2 level = map JSString xs"
    using lv lt by (simp add: array_at_def nth_append)
  have "buildNextLevel_loop H level (length (heap s)) 0 ?s2 =
    (Inr (length (heap s)),
      ?s2\<lparr>heap := (heap ?s2)[length (heap s) := array_at ?s2 (length (heap s))
                @ map JSString (spec_next_level H (drop 0 xs))],
          hash_calls := hash_calls ?s2 + (length xs - 0) div 2\<rparr>)"
    using lt True by (intro buildNextLevel_loop_strings n) simp_all
  moreover have "array_at ?s2 (length (heap s)) = []"
    by (simp add: array_at_def)
  ultimately show ?thesis
    using True by (simp add: buildNextLevel_def lv new_array_def Let_def)
next
  case False
  let ?nodes = "map JSString (xs @ [last xs])"
  let ?s2 = "s\<lparr>heap := heap s @ [?nodes] @ [[]]\<rparr>"
  have n: "array_at ?s2 (length (heap s)) = ?nodes"
    by (simp add: array_at_def nth_append)
  have "buildNextLevel_loop H (length (heap s)) (Suc (length (heap s))) 0 ?s2 =
    (Inr (Suc (length (heap s))),
      ?s2\<lparr>heap := (heap ?s2)[Suc (length (heap s)) := array_at ?s2 (Suc (length (heap s)))
                @ map JSString (spec_next_level H (drop 0 (xs @ [last xs])))],
          hash_calls := hash_calls ?s2 + (length (xs @ [last xs]) - 0) div 2\<rparr>)"
    using False by (intro buildNextLevel_loop_strings n) simp_all
  moreover have "array_at ?s2 (Suc (length (heap s))) = []"
    by (simp add: array_at_def nth_append)
  moreover have "array_get (map JSString xs) (length xs - 1) = JSString (last xs)"
    using ne by (simp add: array_get_def last_conv_nth)
  moreover have "(heap s @ [?nodes, []])[Suc (length (heap s)) := ys] = heap s @ [?nodes, ys]" for ys
    by (simp add: list_update_append)
  moreover have "length xs mod 2 \<noteq> 0"
    using False by presburger
  ultimately show ?thesis
    using False by (simp add: buildNextLevel_def lv new_array_def Let_def
        spec_next_level_duplicate_last)
qed

function digests_needed :: "nat \<Rightarrow> nat" where
  \<comment> \<open>the number of parents above \<open>n\<close> leaves: one for each pair of every level\<close>
  "digests_needed n = (if n \<le> 1 then 0 else (n + 1) div 2 + digests_needed ((n + 1) div 2))"
  by pat_completeness auto
termination
  by (relation "measure (\<lambda>n. n)") auto

declare digests_needed.simps [simp del]

lemma buildMerkleRoot_loop_strings:
  assumes "array_at s cur = map JSString xs" and "xs \<noteq> []"
  shows "\<exists>root p s' new. spec_root H xs = Some root \<and>
    buildMerkleRoot_loop H cur s = (Inr p, s') \<and> array_at s' p = [JSString root] \<and>
    heap s' = heap s @ new \<and> hash_calls s' = hash_calls s + digests_needed (length xs)"
  using assms
proof (induction "length xs" arbitrary: xs cur s rule: less_induct)
  case less
  show ?case
  proof (cases "1 < length xs")
    case False
    with less.prems(2) obtain x where xs: "xs = [x]"
      by (cases xs) auto
    have "buildMerkleRoot_loop H cur s = (Inr cur, s)"
      by (subst buildMerkleRoot_loop.simps) (simp add: less.prems(1) xs)
    then show ?thesis
      using less.prems(1) by (simp add: xs digests_needed.simps [of "Suc 0"])
  next
    case True
    let ?p = "if even (length xs) then length (heap s) else Suc (length (heap s))"
    let ?extra = "(if even (length xs) then [] else [map JSString (xs @ [last xs])])
              @ [map JSString (spec_next_level H xs)]"
    let ?s1 = "s\<lparr>heap := heap s @ ?extra, hash_calls := hash_calls s + (length xs + 1) div 2\<rparr>"
    have step: "buildNextLevel H cur s = (Inr ?p, ?s1)"
      by (rule buildNextLevel_strings [OF less.prems])
    have unf: "buildMerkleRoot_loop H cur s = buildMerkleRoot_loop H ?p ?s1"
      by (subst buildMerkleRoot_loop.simps)
        (simp only: less.prems(1) length_map True step if_True prod.case sum.case)
    have nxt: "array_at ?s1 ?p = map JSString (spec_next_level H xs)"
      by (simp add: array_at_def nth_append)
    have shorter: "length (spec_next_level H xs) < length xs"
      using True unfolding length_spec_next_level by arith
    have nonempty: "spec_next_level H xs \<noteq> []"
      using True length_spec_next_level [of H xs] by (cases "spec_next_level H xs") auto
    from less.hyps [OF shorter nxt nonempty]
    obtain root p s' new where r: "spec_root H (spec_next_level H xs) = Some root"
      and run: "buildMerkleRoot_loop H ?p ?s1 = (Inr p, s')"
      and res: "array_at s' p = [JSString root]" and fr: "heap s' = heap ?s1 @ new"
      and cnt: "hash_calls s' = hash_calls ?s1 + digests_needed (length (spec_next_level H xs))"
      by blast
    have "hash_calls s' = hash_calls s + digests_needed (length xs)"
      using cnt True
      by (simp add: length_spec_next_level digests_needed.simps [of "length xs"])
    note count = this
    from True obtain l ys where "xs = l # ys"
      by (cases xs) auto
    with True obtain r rest where xs: "xs = l # r # rest"
      by (cases ys) auto
    have "spec_root H xs = Some root"
      using r unfolding xs by simp
    moreover have "heap s' = heap s @ (?extra @ new)"
      using fr by simp
    ultimately show ?thesis
      using run res count unfolding unf by blast
  qed
qed

lemma lower_char_hex: "is_lower_hex_char c \<Longrightarrow> lower_char c = c"
  by (auto simp: is_lower_hex_char_def lower_char_def Let_def)

lemma toLowerCase_valid: "isValidSHA256Hex h \<Longrightarrow> toLowerCase h = Inr h"
  by (cases h) (simp_all add: isValidSHA256Hex_def toLowerCase_def list_all_iff
      lower_char_hex map_idI)

lemma map_toLowerCase_valid:
  "\<forall>h \<in> set hs. isValidSHA256Hex h \<Longrightarrow> map_toLowerCase hs = Inr hs"
  by (induction hs) (simp_all add: toLowerCase_valid)

lemma findIndex_none: "findIndex P xs = - 1 \<longleftrightarrow> (\<forall>x \<in> set xs. \<not> P x)"
proof (induction xs)
  case Nil
  show ?case by simp
next
  case (Cons x xs)
  have "0 \<le> findIndex P ys \<or> findIndex P ys = - 1" for ys
    by (induction ys) (auto simp: Let_def)
  from this [of xs] Cons show ?case
    by (auto simp: Let_def)
qed

lemma valid_strings:
  "\<forall>h \<in> set hs. isValidSHA256Hex h \<Longrightarrow> \<exists>leaves. hs = map JSString leaves"
proof (induction hs)
  case Nil
  show ?case by simp
next
  case (Cons h hs)
  then obtain leaves where "hs = map JSString leaves"
    by auto
  moreover from Cons.prems obtain str where "h = JSString str"
    by (cases h) (simp_all add: isValidSHA256Hex_def)
  ultimately have "h # hs = map JSString (str # leaves)"
    by simp
  then show ?case ..
qed

lemma buildMerkleRoot_not_array:
  "\<forall>a. hashes \<noteq> JSArray a \<Longrightarrow> buildMerkleRoot H hashes s = (Inl TypeError, s)"
  by (cases hashes) (simp_all add: buildMerkleRoot_def)

lemma buildMerkleRoot_empty:
  "array_at s a = [] \<Longrightarrow> buildMerkleRoot H (JSArray a) s = (Inl RangeError, s)"
  by (simp add: buildMerkleRoot_def)

lemma findIndex_found:
  "findIndex P xs \<noteq> - 1 \<Longrightarrow>
   0 \<le> findIndex P xs \<and> nat (findIndex P xs) < length xs \<and> P (xs ! nat (findIndex P xs))"
proof (induction xs)
  case Nil
  then show ?case by simp
next
  case (Cons x xs)
  show ?case
  proof (cases "P x")
    case True
    then show ?thesis by simp
  next
    case False
    with Cons.prems have found: "findIndex P xs \<noteq> - 1"
      by (auto simp: Let_def)
    from Cons.IH [OF this] have "nat (findIndex P xs + 1) = Suc (nat (findIndex P xs))"
      by arith
    with Cons.IH [OF found] False found show ?thesis
      by (simp add: Let_def)
  qed
qed

definition invalid_element_error :: "js_value list \<Rightarrow> js_error" where
  \<comment> \<open>the error raised for a sequence with an invalid element\<close>
  "invalid_element_error hs =
     (case ToString_error (array_get hs (nat (findIndex (\<lambda>h. \<not> isValidSHA256Hex h) hs))) of
        Some e \<Rightarrow> e
      | None \<Rightarrow> TypeError)"

lemma buildMerkleRoot_invalid_element:
  "h \<in> set (array_at s a) \<Longrightarrow> \<not> isValidSHA256Hex h \<Longrightarrow>
   buildMerkleRoot H (JSArray a) s = (Inl (invalid_element_error (array_at s a)), s)"
  by (auto simp: buildMerkleRoot_def Let_def findIndex_none invalid_element_error_def
      split: option.splits)

lemma buildMerkleRoot_invalid:
  assumes "h \<in> set (array_at s a)" and "\<not> isValidSHA256Hex h"
    and "\<forall>h \<in> set (array_at s a). ToString_error h = None"
  shows "buildMerkleRoot H (JSArray a) s = (Inl TypeError, s)"
proof -
  let ?hs = "array_at s a"
  let ?i = "findIndex (\<lambda>h. \<not> isValidSHA256Hex h) ?hs"
  from assms(1,2) have "?i \<noteq> - 1"
    by (auto simp: findIndex_none)
  from findIndex_found [OF this] have "array_get ?hs (nat ?i) \<in> set ?hs"
    by (simp add: array_get_def)
  with assms(3) have "invalid_element_error ?hs = TypeError"
    by (simp add: invalid_element_error_def)
  with buildMerkleRoot_invalid_element [OF assms(1,2), of H] show ?thesis
    by simp
qed

lemma buildMerkleRoot_throwing_element:
  "buildMerkleRoot H (JSArray 0)
     \<lparr>heap = [[JSObject (Throws (CallerError ''boom''))]], hash_calls = 0\<rparr>
   = (Inl (CallerError ''boom''),
      \<lparr>heap = [[JSObject (Throws (CallerError ''boom''))]], hash_calls = 0\<rparr>)"
  by (simp add: buildMerkleRoot_def array_at_def array_get_def isValidSHA256Hex_def
      ToString_error_def)

lemma buildMerkleRoot_one:
  "array_at s a = [d] \<Longrightarrow> isValidSHA256Hex d \<Longrightarrow> buildMerkleRoot H (JSArray a) s = (Inr d, s)"
  by (simp add: buildMerkleRoot_def findIndex_none array_get_def)

lemma buildMerkleRoot_valid:
  assumes arr: "array_at s a = map JSString leaves" and ne: "leaves \<noteq> []"
    and valid: "\<forall>l \<in> set leaves. isValidSHA256Hex (JSString l)"
  shows "\<exists>root s' new. spec_root H leaves = Some root \<and>
    buildMerkleRoot H (JSArray a) s = (Inr (JSString root), s') \<and> heap s' = heap s @ new \<and>
    hash_calls s' = hash_calls s + digests_needed (length leaves)"
proof (cases "length leaves = 1")
  case True
  then obtain d where d: "leaves = [d]"
    by (cases leaves) auto
  have "buildMerkleRoot H (JSArray a) s = (Inr (JSString d), s)"
    using arr valid by (intro buildMerkleRoot_one) (simp_all add: d)
  then show ?thesis
    by (simp add: d digests_needed.simps [of "Suc 0"])
next
  case False
  let ?hs = "map JSString leaves"
  let ?s1 = "s\<lparr>heap := heap s @ [?hs]\<rparr>"
  have cur: "array_at ?s1 (length (heap s)) = ?hs"
    by (simp add: array_at_def)
  from buildMerkleRoot_loop_strings [OF cur ne, of H]
  obtain root p s2 new where root: "spec_root H leaves = Some root"
    and run: "buildMerkleRoot_loop H (length (heap s)) ?s1 = (Inr p, s2)"
    and res: "array_at s2 p = [JSString root]" and fr: "heap s2 = heap ?s1 @ new"
    and cnt: "hash_calls s2 = hash_calls ?s1 + digests_needed (length leaves)"
    by blast
  have low: "map_toLowerCase ?hs = Inr ?hs"
    using valid by (intro map_toLowerCase_valid) simp
  have ok: "findIndex (\<lambda>h. \<not> isValidSHA256Hex h) ?hs = - 1"
    using valid by (simp add: findIndex_none)
  have "buildMerkleRoot H (JSArray a) s = (Inr (JSString root), s2)"
    using ne False
    by (simp add: buildMerkleRoot_def arr ok low new_array_def run res array_get_def)
  moreover have "heap s2 = heap s @ ([?hs] @ new)"
    using fr by simp
  ultimately show ?thesis
    using root cnt by auto
qed

lemma buildMerkleRoot_hash_calls:
  assumes "array_at s a = map JSString leaves" and "leaves \<noteq> []"
    and "\<forall>l \<in> set leaves. isValidSHA256Hex (JSString l)"
  shows "hash_calls (snd (buildMerkleRoot H (JSArray a) s))
         = hash_calls s + digests_needed (length leaves)"
  using buildMerkleRoot_valid [OF assms, of H] by auto

lemma digests_needed_three: "digests_needed 3 = 3"
  by (simp add: digests_needed.simps [of 3] digests_needed.simps [of 2]
      digests_needed.simps [of "Suc 0"])

lemma valid_decode_roundtrip:
  assumes "isValidSHA256Hex (JSString l)"
  shows "length (hex_decode l) = 32 \<and> hex_encode (hex_decode l) = l"
proof -
  from assms have "list_all is_lower_hex_char l" and "length l = 64"
    by (simp_all add: isValidSHA256Hex_def)
  with hex_encode_decode_length [of l] show ?thesis
    by simp
qed

lemma spec_parent_valid: "digest32 H \<Longrightarrow> isValidSHA256Hex (JSString (spec_parent H l r))"
  by (simp add: isValidSHA256Hex_def spec_parent_def length_hex_encode lower_hex_encode
      digest32_def)

lemma spec_next_level_valid:
  "digest32 H \<Longrightarrow> \<forall>x \<in> set (spec_next_level H level). isValidSHA256Hex (JSString x)"
  by (induction H level rule: spec_next_level.induct) (simp_all add: spec_parent_valid)

lemma spec_root_valid:
  "digest32 H \<Longrightarrow> \<forall>l \<in> set level. isValidSHA256Hex (JSString l) \<Longrightarrow>
   spec_root H level = Some root \<Longrightarrow> isValidSHA256Hex (JSString root)"
proof (induction H level rule: spec_root.induct)
  case (3 H l r rest)
  from "3.prems"(3) have "spec_root H (spec_next_level H (l # r # rest)) = Some root"
    by simp
  with "3.IH" "3.prems"(1) spec_next_level_valid [OF "3.prems"(1)] show ?case
    by blast
qed simp_all

lemma spec_next_level_nth:
  "i < (length level + 1) div 2 \<Longrightarrow>
   spec_next_level H level ! i =
     spec_parent H (level ! (2 * i)) ((level @ [last level]) ! (2 * i + 1))"
proof (induction H level arbitrary: i rule: spec_next_level.induct)
  case (1 H l r rest)
  show ?case
  proof (cases i)
    case 0
    then show ?thesis by simp
  next
    case (Suc j)
    with "1.prems" have j: "j < (length rest + 1) div 2"
      by simp
    then have "rest \<noteq> []"
      by auto
    with "1.IH" [OF j] show ?thesis
      by (simp add: Suc)
  qed
next
  case (2 H l)
  then show ?case by simp
next
  case (3 H)
  then show ?case by simp
qed

lemma spec_root_three:
  "spec_root H [x, y, z] =
     Some (hex_encode (H (H (hex_decode x @ hex_decode y) @ H (hex_decode z @ hex_decode z))))"
  by (simp add: spec_parent_def hex_decode_encode)

lemma buildNextLevel_index:
  assumes "array_at t b = map JSString level" and "level \<noteq> []"
  shows "\<exists>p t'. buildNextLevel H b t = (Inr p, t') \<and>
    length (array_at t' p) = (length level + 1) div 2 \<and>
    (\<forall>i < (length level + 1) div 2. array_at t' p ! i =
       JSString (hex_encode (H (hex_decode (level ! (2 * i))
         @ hex_decode ((level @ [last level]) ! (2 * i + 1))))))"
proof -
  let ?p = "if even (length level) then length (heap t) else Suc (length (heap t))"
  let ?t' = "t\<lparr>heap := heap t @ (if even (length level) then []
                else [map JSString (level @ [last level])])
              @ [map JSString (spec_next_level H level)],
       hash_calls := hash_calls t + (length level + 1) div 2\<rparr>"
  have run: "buildNextLevel H b t = (Inr ?p, ?t')"
    by (rule buildNextLevel_strings [OF assms])
  have arr: "array_at ?t' ?p = map JSString (spec_next_level H level)"
    by (simp add: array_at_def nth_append)
  have "length (array_at ?t' ?p) = (length level + 1) div 2"
    unfolding arr by (simp add: length_spec_next_level)
  moreover have "array_at ?t' ?p ! i =
       JSString (hex_encode (H (hex_decode (level ! (2 * i))
         @ hex_decode ((level @ [last level]) ! (2 * i + 1)))))"
    if "i < (length level + 1) div 2" for i
    unfolding arr using that
    by (simp add: length_spec_next_level spec_next_level_nth spec_parent_def)
  ultimately show ?thesis
    using run by blast
qed

lemma buildMerkleRoot_cases:
  "(\<forall>a. hashes \<noteq> JSArray a) \<and> buildMerkleRoot H hashes s = (Inl TypeError, s)
   \<or> (\<exists>a. hashes = JSArray a \<and> array_at s a = [] \<and>
          buildMerkleRoot H hashes s = (Inl RangeError, s))
   \<or> (\<exists>a h. hashes = JSArray a \<and> h \<in> set (array_at s a) \<and> \<not> isValidSHA256Hex h \<and>
          buildMerkleRoot H hashes s = (Inl (invalid_element_error (array_at s a)), s))
   \<or> (\<exists>a leaves root s' new. hashes = JSArray a \<and> array_at s a = map JSString leaves \<and>
          leaves \<noteq> [] \<and> (\<forall>l \<in> set leaves. isValidSHA256Hex (JSString l)) \<and>
          spec_root H leaves = Some root \<and>
          buildMerkleRoot H hashes s = (Inr (JSString root), s') \<and> heap s' = heap s @ new)"
proof (cases "\<exists>a. hashes = JSArray a")
  case False
  then show ?thesis
    using buildMerkleRoot_not_array [of hashes H s] by simp
next
  case True
  then obtain a where a: "hashes = JSArray a" ..
  show ?thesis
  proof (cases "array_at s a = []")
    case True
    then show ?thesis
      using a buildMerkleRoot_empty [of s a H] by simp
  next
    case ne: False
    show ?thesis
    proof (cases "\<forall>h \<in> set (array_at s a). isValidSHA256Hex h")
      case False
      then obtain h where "h \<in> set (array_at s a)" and "\<not> isValidSHA256Hex h"
        by blast
      then show ?thesis
        using a buildMerkleRoot_invalid_element [of h s a H] by blast
    next
      case True
      from valid_strings [OF True] obtain leaves where l: "array_at s a = map JSString leaves" ..
      with ne True have "leaves \<noteq> []" and v: "\<forall>l \<in> set leaves. isValidSHA256Hex (JSString l)"
        by auto
      with buildMerkleRoot_valid [OF l, of H] l a show ?thesis
        by blast
    qed
  qed
qed

lemma buildMerkleRoot_frame: "\<exists>new. heap (snd (buildMerkleRoot H hashes s)) = heap s @ new"
  using buildMerkleRoot_cases [of hashes H s] by (elim disjE exE conjE) simp_all

lemma buildMerkleRoot_contents:
  assumes "array_at t b = array_at s a"
  shows "fst (buildMerkleRoot H (JSArray b) t) = fst (buildMerkleRoot H (JSArray a) s)"
proof -
  consider (empty) "array_at s a = []"
    | (invalid) h where "h \<in> set (array_at s a)" "\<not> isValidSHA256Hex h"
    | (valid) "array_at s a \<noteq> []" "\<forall>h \<in> set (array_at s a). isValidSHA256Hex h"
    by blast
  then show ?thesis
  proof cases
    case empty
    with assms show ?thesis
      by (simp add: buildMerkleRoot_empty)
  next
    case invalid
    with assms show ?thesis
      by (simp add: buildMerkleRoot_invalid_element [of h])
  next
    case valid
    from valid_strings [OF valid(2)] obtain leaves where l: "array_at s a = map JSString leaves" ..
    with valid have ne: "leaves \<noteq> []" and v: "\<forall>l \<in> set leaves. isValidSHA256Hex (JSString l)"
      by auto
    from buildMerkleRoot_valid [OF l ne v, of H]
      buildMerkleRoot_valid [OF assms [unfolded l] ne v, of H]
    show ?thesis
      by auto
  qed
qed

definition is_hex_char :: "char \<Rightarrow> bool" where
  \<comment> \<open>a hexadecimal digit in either letter case\<close>
  "is_hex_char c \<longleftrightarrow> hex_value c \<noteq> None"

lemma lower_char_fixes_hex:
  "is_hex_char c \<Longrightarrow> lower_char c = c \<longleftrightarrow> is_lower_hex_char c"
  by (auto simp: is_hex_char_def hex_value_def lower_char_def is_lower_hex_char_def Let_def
      char_of_eq_iff take_bit_eq_mod split: if_splits)

lemma lowercase_string_valid:
  assumes "length str = 64" and "list_all is_hex_char str"
  shows "isValidSHA256Hex (JSString str) \<longleftrightarrow> map lower_char str = str"
proof -
  have "map lower_char str = str \<longleftrightarrow> (\<forall>c \<in> set str. lower_char c = c)"
    using map_eq_conv [of lower_char str "\<lambda>c. c"] by simp
  also have "\<dots> \<longleftrightarrow> list_all is_lower_hex_char str"
    using assms(2) by (auto simp: list_all_iff lower_char_fixes_hex)
  finally show ?thesis
    using assms(1) by (simp add: isValidSHA256Hex_def)
qed

subsection \<open>The claims about \<open>buildMerkleRoot\<close>\<close>

text \<open>
  C1. For a sequence of at least two valid leaves, \<open>buildMerkleRoot\<close> returns the root of
  the level-by-level reduction \<open>spec_root\<close>. Every leaf decodes to 32 raw bytes. One call
  of \<open>buildNextLevel\<close> on a level of \<open>n\<close> digests makes a level of \<open>(n + 1) div 2\<close>
  digests whose element \<open>i\<close> is the digest of the decoded bytes of elements \<open>2i\<close> and
  \<open>2i + 1\<close>, the last element standing in for the missing partner of an odd level. For three
  leaves \<open>x, y, z\<close> the root is \<open>H (H (x || y) || H (z || z))\<close> over raw bytes.
\<close>

theorem buildMerkleRoot_pairwise_reduction:
  assumes "array_at s a = map JSString leaves" and "2 \<le> length leaves"
    and "\<forall>l \<in> set leaves. isValidSHA256Hex (JSString l)"
  shows "(\<exists>root. spec_root H leaves = Some root \<and>
            fst (buildMerkleRoot H (JSArray a) s) = Inr (JSString root))
    \<and> (\<forall>l \<in> set leaves. length (hex_decode l) = 32 \<and> hex_encode (hex_decode l) = l)
    \<and> (\<forall>t b level. array_at t b = map JSString level \<and> level \<noteq> [] \<longrightarrow>
          (\<exists>p t'. buildNextLevel H b t = (Inr p, t') \<and>
             length (array_at t' p) = (length level + 1) div 2 \<and>
             (\<forall>i < (length level + 1) div 2. array_at t' p ! i =
                JSString (hex_encode (H (hex_decode (level ! (2 * i))
                  @ hex_decode ((level @ [last level]) ! (2 * i + 1))))))))
    \<and> (\<forall>x y z. leaves = [x, y, z] \<longrightarrow>
          fst (buildMerkleRoot H (JSArray a) s) =
            Inr (JSString (hex_encode
              (H (H (hex_decode x @ hex_decode y) @ H (hex_decode z @ hex_decode z))))))"
proof -
  from assms(2) have ne: "leaves \<noteq> []"
    by auto
  from buildMerkleRoot_valid [OF assms(1) ne assms(3), of H]
  obtain root s' where root: "spec_root H leaves = Some root"
    and run: "buildMerkleRoot H (JSArray a) s = (Inr (JSString root), s')"
    by blast
  have first: "\<exists>root. spec_root H leaves = Some root \<and>
            fst (buildMerkleRoot H (JSArray a) s) = Inr (JSString root)"
    using root run by simp
  have second: "\<forall>l \<in> set leaves. length (hex_decode l) = 32 \<and> hex_encode (hex_decode l) = l"
    using assms(3) valid_decode_roundtrip by blast
  have third: "\<forall>t b level. array_at t b = map JSString level \<and> level \<noteq> [] \<longrightarrow>
          (\<exists>p t'. buildNextLevel H b t = (Inr p, t') \<and>
             length (array_at t' p) = (length level + 1) div 2 \<and>
             (\<forall>i < (length level + 1) div 2. array_at t' p ! i =
                JSString (hex_encode (H (hex_decode (level ! (2 * i))
                  @ hex_decode ((level @ [last level]) ! (2 * i + 1)))))))"
    using buildNextLevel_index by blast
  have fourth: "\<forall>x y z. leaves = [x, y, z] \<longrightarrow>
          fst (buildMerkleRoot H (JSArray a) s) =
            Inr (JSString (hex_encode
              (H (H (hex_decode x @ hex_decode y) @ H (hex_decode z @ hex_decode z)))))"
    using root run spec_root_three [of H] by auto
  from first second third fourth show ?thesis
    by (intro conjI)
qed

theorem buildMerkleRoot_pairwise_reduction_witness:
  "array_at \<lparr>heap = [[JSString (replicate 64 CHR ''a''), JSString (replicate 64 CHR ''b''),
                     JSString (replicate 64 CHR ''c'')]], hash_calls = 0\<rparr> 0
     = map JSString [replicate 64 CHR ''a'', replicate 64 CHR ''b'', replicate 64 CHR ''c'']
   \<and> 2 \<le> length [replicate 64 CHR ''a'', replicate 64 CHR ''b'', replicate 64 CHR ''c'']
   \<and> isValidSHA256Hex (JSString (replicate 64 CHR ''a''))
   \<and> isValidSHA256Hex (JSString (replicate 64 CHR ''b''))
   \<and> isValidSHA256Hex (JSString (replicate 64 CHR ''c''))
   \<and> fst (buildMerkleRoot first32 (JSArray 0)
        \<lparr>heap = [[JSString (replicate 64 CHR ''a''), JSString (replicate 64 CHR ''b''),
                   JSString (replicate 64 CHR ''c'')]], hash_calls = 0\<rparr>)
     = Inr (JSString (hex_encode (first32
         (first32 (hex_decode (replicate 64 CHR ''a'') @ hex_decode (replicate 64 CHR ''b''))
          @ first32 (hex_decode (replicate 64 CHR ''c'') @ hex_decode (replicate 64 CHR ''c''))))))"
proof -
  let ?leaves = "[replicate 64 CHR ''a'', replicate 64 CHR ''b'', replicate 64 CHR ''c'']"
  let ?s = "\<lparr>heap = [map JSString ?leaves], hash_calls = 0\<rparr>"
  have arr: "array_at ?s 0 = map JSString ?leaves"
    by (simp add: array_at_def)
  have len: "2 \<le> length ?leaves"
    by simp
  have va: "isValidSHA256Hex (JSString (replicate 64 CHR ''a''))"
    and vb: "isValidSHA256Hex (JSString (replicate 64 CHR ''b''))"
    and vc: "isValidSHA256Hex (JSString (replicate 64 CHR ''c''))"
    by (simp_all add: isValidSHA256Hex_def is_lower_hex_char_def list_all_iff)
  then have valid: "\<forall>l \<in> set ?leaves. isValidSHA256Hex (JSString l)"
    by simp
  from buildMerkleRoot_pairwise_reduction [OF arr len valid, of first32]
  have "fst (buildMerkleRoot first32 (JSArray 0) ?s)
     = Inr (JSString (hex_encode (first32
         (first32 (hex_decode (replicate 64 CHR ''a'') @ hex_decode (replicate 64 CHR ''b''))
          @ first32 (hex_decode (replicate 64 CHR ''c'') @ hex_decode (replicate 64 CHR ''c''))))))"
    by blast
  with arr len va vb vc show ?thesis
    by simp
qed

text \<open>
  C4. The Merkle root of a single valid digest \<open>d\<close> is \<open>d\<close> itself, and the call leaves
  the whole state as it was: no digest is computed and no array is created.
\<close>

theorem buildMerkleRoot_single_leaf:
  "array_at s a = [d] \<Longrightarrow> isValidSHA256Hex d \<Longrightarrow> buildMerkleRoot H (JSArray a) s = (Inr d, s)"
  by (rule buildMerkleRoot_one)

theorem buildMerkleRoot_single_leaf_witness:
  "array_at \<lparr>heap = [[JSString (replicate 64 CHR ''a'')]], hash_calls = 0\<rparr> 0
     = [JSString (replicate 64 CHR ''a'')]
   \<and> isValidSHA256Hex (JSString (replicate 64 CHR ''a''))
   \<and> buildMerkleRoot first32 (JSArray 0) \<lparr>heap = [[JSString (replicate 64 CHR ''a'')]], hash_calls = 0\<rparr>
     = (Inr (JSString (replicate 64 CHR ''a'')),
        \<lparr>heap = [[JSString (replicate 64 CHR ''a'')]], hash_calls = 0\<rparr>)"
proof -
  have a: "array_at \<lparr>heap = [[JSString (replicate 64 CHR ''a'')]], hash_calls = 0\<rparr> 0
     = [JSString (replicate 64 CHR ''a'')]"
    by (simp add: array_at_def)
  have v: "isValidSHA256Hex (JSString (replicate 64 CHR ''a''))"
    by (simp add: isValidSHA256Hex_def is_lower_hex_char_def list_all_iff)
  from a v buildMerkleRoot_single_leaf [OF a v, of first32] show ?thesis
    by simp
qed

text \<open>
  C5 fails of the code at a string of 64 hexadecimal characters written with capital
  letters: the sequence below is a non-empty array of strings of exactly 64 hexadecimal
  characters, its first element is valid, and \<open>buildMerkleRoot\<close> raises a TypeError and
  leaves the state as it was. Validation reads the elements before the lowercasing step.
\<close>

theorem buildMerkleRoot_rejects_capital_hex:
  "length (replicate 64 CHR ''F'') = 64
   \<and> list_all is_hex_char (replicate 64 CHR ''F'')
   \<and> isValidSHA256Hex (JSString (replicate 64 CHR ''0''))
   \<and> buildMerkleRoot H (JSArray 0)
        \<lparr>heap = [[JSString (replicate 64 CHR ''0''), JSString (replicate 64 CHR ''F'')]],
          hash_calls = 0\<rparr>
     = (Inl TypeError,
        \<lparr>heap = [[JSString (replicate 64 CHR ''0''), JSString (replicate 64 CHR ''F'')]],
          hash_calls = 0\<rparr>)"
proof -
  let ?s = "\<lparr>heap = [[JSString (replicate 64 CHR ''0''), JSString (replicate 64 CHR ''F'')]],
          hash_calls = 0\<rparr>"
  have "JSString (replicate 64 CHR ''F'') \<in> set (array_at ?s 0)"
    by (simp add: array_at_def)
  moreover have "\<not> isValidSHA256Hex (JSString (replicate 64 CHR ''F''))"
    by (simp add: isValidSHA256Hex_def is_lower_hex_char_def list_all_iff)
  moreover have "\<forall>h \<in> set (array_at ?s 0). ToString_error h = None"
    by (simp add: array_at_def ToString_error_def)
  ultimately have "buildMerkleRoot H (JSArray 0) ?s = (Inl TypeError, ?s)"
    by (rule buildMerkleRoot_invalid)
  moreover have "list_all is_hex_char (replicate 64 CHR ''F'')"
    by (simp add: is_hex_char_def hex_value_def list_all_iff)
  moreover have "isValidSHA256Hex (JSString (replicate 64 CHR ''0''))"
    by (simp add: isValidSHA256Hex_def is_lower_hex_char_def list_all_iff)
  ultimately show ?thesis
    by simp
qed

text \<open>
  C6 fails of the code: two digests written with capital letters are rejected with a
  TypeError, where the claim has them accepted with the root of their lowercase forms. The
  lowercase forms are what \<open>toLowerCase\<close> makes of them, and they are accepted: their root is
  the digest of their decoded bytes.
\<close>

theorem buildMerkleRoot_rejects_uppercase_digests:
  "map lower_char (replicate 64 CHR ''A'') = replicate 64 CHR ''a''
   \<and> map lower_char (replicate 64 CHR ''B'') = replicate 64 CHR ''b''
   \<and> list_all is_hex_char (replicate 64 CHR ''A'')
   \<and> list_all is_hex_char (replicate 64 CHR ''B'')
   \<and> fst (buildMerkleRoot H (JSArray 0)
        \<lparr>heap = [[JSString (replicate 64 CHR ''A''), JSString (replicate 64 CHR ''B'')]],
          hash_calls = 0\<rparr>) = Inl TypeError
   \<and> fst (buildMerkleRoot H (JSArray 0)
        \<lparr>heap = [[JSString (replicate 64 CHR ''a''), JSString (replicate 64 CHR ''b'')]],
          hash_calls = 0\<rparr>)
       = Inr (JSString (hex_encode (H (hex_decode (replicate 64 CHR ''a'')
                                        @ hex_decode (replicate 64 CHR ''b'')))))"
proof -
  let ?u = "\<lparr>heap = [[JSString (replicate 64 CHR ''A''), JSString (replicate 64 CHR ''B'')]],
          hash_calls = 0\<rparr>"
  let ?leaves = "[replicate 64 CHR ''a'', replicate 64 CHR ''b'']"
  let ?l = "\<lparr>heap = [map JSString ?leaves], hash_calls = 0\<rparr>"
  have "JSString (replicate 64 CHR ''A'') \<in> set (array_at ?u 0)"
    by (simp add: array_at_def)
  moreover have "\<not> isValidSHA256Hex (JSString (replicate 64 CHR ''A''))"
    by (simp add: isValidSHA256Hex_def is_lower_hex_char_def list_all_iff)
  moreover have "\<forall>h \<in> set (array_at ?u 0). ToString_error h = None"
    by (simp add: array_at_def ToString_error_def)
  ultimately have upper: "buildMerkleRoot H (JSArray 0) ?u = (Inl TypeError, ?u)"
    by (rule buildMerkleRoot_invalid)
  have arr: "array_at ?l 0 = map JSString ?leaves"
    by (simp add: array_at_def)
  have valid: "\<forall>l \<in> set ?leaves. isValidSHA256Hex (JSString l)"
    by (simp add: isValidSHA256Hex_def is_lower_hex_char_def list_all_iff)
  from buildMerkleRoot_valid [OF arr _ valid, of H]
  have lower: "fst (buildMerkleRoot H (JSArray 0) ?l)
       = Inr (JSString (hex_encode (H (hex_decode (replicate 64 CHR ''a'')
                                        @ hex_decode (replicate 64 CHR ''b'')))))"
    by (auto simp: spec_parent_def)
  have "lower_char CHR ''A'' = CHR ''a''" and "lower_char CHR ''B'' = CHR ''b''"
    by (simp_all add: lower_char_def char_of_eq_iff)
  moreover have "list_all is_hex_char (replicate 64 CHR ''A'')"
    and "list_all is_hex_char (replicate 64 CHR ''B'')"
    by (simp_all add: is_hex_char_def hex_value_def list_all_iff)
  ultimately show ?thesis
    using upper lower by simp
qed

text \<open>
  C7. For every non-empty sequence of valid leaves, of odd or even length, and a digest
  function with 32-byte results: the \<open>while\<close> loop, started on an array of the leaves,
  returns, and the level it returns has exactly one element, the root of the reduction
  \<open>spec_root\<close>, after one digest for each pair of every level; \<open>buildMerkleRoot\<close> returns
  that root, with the same number of digests computed, and the root is a string of 64
  characters from \<open>0-9a-f\<close>. Every reduction step on a level of more than one element
  returns a level that is strictly shorter and not empty, which is the measure that makes
  the loop terminate.
\<close>

theorem buildMerkleRoot_terminates_with_digest:
  assumes "array_at s a = map JSString leaves" and "leaves \<noteq> []"
    and "\<forall>l \<in> set leaves. isValidSHA256Hex (JSString l)" and "digest32 H"
  shows "(\<exists>root s'. spec_root H leaves = Some root \<and>
            buildMerkleRoot H (JSArray a) s = (Inr (JSString root), s') \<and>
            hash_calls s' = hash_calls s + digests_needed (length leaves) \<and>
            length root = 64 \<and> list_all is_lower_hex_char root)
    \<and> (\<forall>t cur. array_at t cur = map JSString leaves \<longrightarrow>
          (\<exists>root p t'. spec_root H leaves = Some root \<and>
             buildMerkleRoot_loop H cur t = (Inr p, t') \<and>
             length (array_at t' p) = 1 \<and> array_at t' p = [JSString root] \<and>
             hash_calls t' = hash_calls t + digests_needed (length leaves)))
    \<and> (\<forall>t b p t'. 1 < length (array_at t b) \<and> buildNextLevel H b t = (Inr p, t') \<longrightarrow>
          length (array_at t' p) < length (array_at t b) \<and> 1 \<le> length (array_at t' p))"
proof -
  from buildMerkleRoot_valid [OF assms(1,2,3), of H]
  obtain root s' where root: "spec_root H leaves = Some root"
    and run: "buildMerkleRoot H (JSArray a) s = (Inr (JSString root), s')"
    and count: "hash_calls s' = hash_calls s + digests_needed (length leaves)"
    by blast
  from spec_root_valid [OF assms(4,3) root]
  have "length root = 64 \<and> list_all is_lower_hex_char root"
    by (simp add: isValidSHA256Hex_def)
  with root run count
  have first: "\<exists>root s'. spec_root H leaves = Some root \<and>
            buildMerkleRoot H (JSArray a) s = (Inr (JSString root), s') \<and>
            hash_calls s' = hash_calls s + digests_needed (length leaves) \<and>
            length root = 64 \<and> list_all is_lower_hex_char root"
    by blast
  have loop: "\<exists>root p t'. spec_root H leaves = Some root \<and>
             buildMerkleRoot_loop H cur t = (Inr p, t') \<and>
             length (array_at t' p) = 1 \<and> array_at t' p = [JSString root] \<and>
             hash_calls t' = hash_calls t + digests_needed (length leaves)"
    if "array_at t cur = map JSString leaves" for t cur
  proof -
    from buildMerkleRoot_loop_strings [OF that assms(2), of H]
    obtain r p t' where "spec_root H leaves = Some r"
      and "buildMerkleRoot_loop H cur t = (Inr p, t')" and "array_at t' p = [JSString r]"
      and "hash_calls t' = hash_calls t + digests_needed (length leaves)"
      by blast
    moreover from this have "length (array_at t' p) = 1"
      by simp
    ultimately show ?thesis
      by blast
  qed
  have step: "length (array_at t' p) < length (array_at t b) \<and> 1 \<le> length (array_at t' p)"
    if "1 < length (array_at t b)" and "buildNextLevel H b t = (Inr p, t')" for t b p t'
    using that(1) unfolding buildNextLevel_length [OF that(2,1)] by arith
  from first loop step show ?thesis
    by blast
qed

theorem buildMerkleRoot_terminates_with_digest_witness:
  "array_at \<lparr>heap = [[JSString (replicate 64 CHR ''1''), JSString (replicate 64 CHR ''2''),
                     JSString (replicate 64 CHR ''3'')]], hash_calls = 0\<rparr> 0
     = map JSString [replicate 64 CHR ''1'', replicate 64 CHR ''2'', replicate 64 CHR ''3'']
   \<and> [replicate 64 CHR ''1'', replicate 64 CHR ''2'', replicate 64 CHR ''3''] \<noteq> []
   \<and> isValidSHA256Hex (JSString (replicate 64 CHR ''1''))
   \<and> isValidSHA256Hex (JSString (replicate 64 CHR ''2''))
   \<and> isValidSHA256Hex (JSString (replicate 64 CHR ''3''))
   \<and> digest32 first32
   \<and> (\<exists>root s'. spec_root first32
            [replicate 64 CHR ''1'', replicate 64 CHR ''2'', replicate 64 CHR ''3''] = Some root
          \<and> buildMerkleRoot first32 (JSArray 0)
          \<lparr>heap = [[JSString (replicate 64 CHR ''1''), JSString (replicate 64 CHR ''2''),
                     JSString (replicate 64 CHR ''3'')]], hash_calls = 0\<rparr>
          = (Inr (JSString root), s') \<and> hash_calls s' = 3
          \<and> length root = 64 \<and> list_all is_lower_hex_char root)
   \<and> (\<exists>root p t'. spec_root first32
            [replicate 64 CHR ''1'', replicate 64 CHR ''2'', replicate 64 CHR ''3''] = Some root
          \<and> buildMerkleRoot_loop first32 0
          \<lparr>heap = [[JSString (replicate 64 CHR ''1''), JSString (replicate 64 CHR ''2''),
                     JSString (replicate 64 CHR ''3'')]], hash_calls = 0\<rparr> = (Inr p, t')
          \<and> length (array_at t' p) = 1 \<and> array_at t' p = [JSString root] \<and> hash_calls t' = 3)
   \<and> (\<exists>p t'. buildNextLevel first32 0
          \<lparr>heap = [[JSString (replicate 64 CHR ''1''), JSString (replicate 64 CHR ''2''),
                     JSString (replicate 64 CHR ''3'')]], hash_calls = 0\<rparr> = (Inr p, t')
          \<and> length (array_at t' p) < 3 \<and> 1 \<le> length (array_at t' p))"
proof -
  let ?leaves = "[replicate 64 CHR ''1'', replicate 64 CHR ''2'', replicate 64 CHR ''3'']"
  let ?s = "\<lparr>heap = [map JSString ?leaves], hash_calls = 0\<rparr>"
  have arr: "array_at ?s 0 = map JSString ?leaves"
    by (simp add: array_at_def)
  have ne: "?leaves \<noteq> []"
    by simp
  have v1: "isValidSHA256Hex (JSString (replicate 64 CHR ''1''))"
    and v2: "isValidSHA256Hex (JSString (replicate 64 CHR ''2''))"
    and v3: "isValidSHA256Hex (JSString (replicate 64 CHR ''3''))"
    by (simp_all add: isValidSHA256Hex_def is_lower_hex_char_def list_all_iff)
  then have valid: "\<forall>l \<in> set ?leaves. isValidSHA256Hex (JSString l)"
    by simp
  note inst = buildMerkleRoot_terminates_with_digest [OF arr ne valid digest32_first32]
  have "length ?leaves = 3"
    by simp
  then have three: "digests_needed (length ?leaves) = 3"
    by (simp only: digests_needed_three)
  from inst [THEN conjunct1]
  have whole: "\<exists>root s'. spec_root first32 ?leaves = Some root
          \<and> buildMerkleRoot first32 (JSArray 0) ?s = (Inr (JSString root), s')
          \<and> hash_calls s' = 3 \<and> length root = 64 \<and> list_all is_lower_hex_char root"
    unfolding three by simp
  from inst [THEN conjunct2, THEN conjunct1] arr
  have "\<exists>root p t'. spec_root first32 ?leaves = Some root
          \<and> buildMerkleRoot_loop first32 0 ?s = (Inr p, t')
          \<and> length (array_at t' p) = 1 \<and> array_at t' p = [JSString root]
          \<and> hash_calls t' = hash_calls ?s + digests_needed (length ?leaves)"
    by blast
  then have loop: "\<exists>root p t'. spec_root first32 ?leaves = Some root
          \<and> buildMerkleRoot_loop first32 0 ?s = (Inr p, t')
          \<and> length (array_at t' p) = 1 \<and> array_at t' p = [JSString root] \<and> hash_calls t' = 3"
    unfolding three by simp
  from buildNextLevel_index [OF arr ne, of first32]
  obtain p t' where run: "buildNextLevel first32 0 ?s = (Inr p, t')"
    by blast
  have "1 < length (array_at ?s 0)"
    by (simp add: array_at_def)
  with inst [THEN conjunct2, THEN conjunct2] run
  have "length (array_at t' p) < length (array_at ?s 0) \<and> 1 \<le> length (array_at t' p)"
    by blast
  then have "length (array_at t' p) < 3 \<and> 1 \<le> length (array_at t' p)"
    by (simp add: array_at_def)
  with run have step: "\<exists>p t'. buildNextLevel first32 0 ?s = (Inr p, t')
          \<and> length (array_at t' p) < 3 \<and> 1 \<le> length (array_at t' p)"
    by blast
  from arr ne v1 v2 v3 digest32_first32 whole loop step show ?thesis
    by simp
qed

text \<open>
  C8. \<open>buildMerkleRoot\<close> changes no array that existed before the call, whatever its
  argument is: every such array, the argument among them, holds the same elements in the
  same order afterwards. Its result depends on the elements of the array only, so a copy of
  the array gives the same result, and so does a second call on the same array.
\<close>

theorem buildMerkleRoot_input_unchanged:
  "(\<forall>c < length (heap s). array_at (snd (buildMerkleRoot H hashes s)) c = array_at s c)
   \<and> (\<forall>b t. array_at t b = array_at s a \<longrightarrow>
         fst (buildMerkleRoot H (JSArray b) t) = fst (buildMerkleRoot H (JSArray a) s))
   \<and> fst (buildMerkleRoot H (JSArray a) (snd (buildMerkleRoot H (JSArray a) s)))
       = fst (buildMerkleRoot H (JSArray a) s)"
proof -
  have frame: "array_at (snd (buildMerkleRoot H v s)) c = array_at s c"
    if "c < length (heap s)" for v c
  proof -
    from buildMerkleRoot_frame [of H v s]
    obtain new where "heap (snd (buildMerkleRoot H v s)) = heap s @ new" ..
    with that show ?thesis
      by (simp add: array_at_def nth_append)
  qed
  have "array_at (snd (buildMerkleRoot H (JSArray a) s)) a = array_at s a"
  proof (cases "a < length (heap s)")
    case True
    then show ?thesis by (rule frame)
  next
    case False
    then have "array_at s a = []"
      by (simp add: array_at_def)
    then show ?thesis
      by (simp add: buildMerkleRoot_empty)
  qed
  then have again: "fst (buildMerkleRoot H (JSArray a) (snd (buildMerkleRoot H (JSArray a) s)))
       = fst (buildMerkleRoot H (JSArray a) s)"
    by (rule buildMerkleRoot_contents)
  from frame buildMerkleRoot_contents again show ?thesis
    by blast
qed

theorem buildMerkleRoot_input_unchanged_witness:
  "(0::nat) < length (heap \<lparr>heap = [[JSString (replicate 64 CHR ''a''),
        JSString (replicate 64 CHR ''b'')]], hash_calls = 0\<rparr>)
   \<and> array_at (snd (buildMerkleRoot first32 (JSArray 0)
        \<lparr>heap = [[JSString (replicate 64 CHR ''a''), JSString (replicate 64 CHR ''b'')]],
          hash_calls = 0\<rparr>)) 0
       = [JSString (replicate 64 CHR ''a''), JSString (replicate 64 CHR ''b'')]
   \<and> array_at (snd (new_array [JSString (replicate 64 CHR ''a''), JSString (replicate 64 CHR ''b'')]
        \<lparr>heap = [[JSString (replicate 64 CHR ''a''), JSString (replicate 64 CHR ''b'')]],
          hash_calls = 0\<rparr>)) 1
       = array_at \<lparr>heap = [[JSString (replicate 64 CHR ''a''), JSString (replicate 64 CHR ''b'')]],
          hash_calls = 0\<rparr> 0
   \<and> fst (buildMerkleRoot first32 (JSArray 1)
        (snd (new_array [JSString (replicate 64 CHR ''a''), JSString (replicate 64 CHR ''b'')]
          \<lparr>heap = [[JSString (replicate 64 CHR ''a''), JSString (replicate 64 CHR ''b'')]],
            hash_calls = 0\<rparr>)))
       = fst (buildMerkleRoot first32 (JSArray 0)
          \<lparr>heap = [[JSString (replicate 64 CHR ''a''), JSString (replicate 64 CHR ''b'')]],
            hash_calls = 0\<rparr>)"
proof -
  let ?hs = "[JSString (replicate 64 CHR ''a''), JSString (replicate 64 CHR ''b'')]"
  let ?s = "\<lparr>heap = [?hs], hash_calls = 0\<rparr>"
  let ?t = "snd (new_array ?hs ?s)"
  note inst = buildMerkleRoot_input_unchanged [of ?s first32 "JSArray 0" 0]
  have lt: "(0::nat) < length (heap ?s)"
    by simp
  with inst [THEN conjunct1]
  have "array_at (snd (buildMerkleRoot first32 (JSArray 0) ?s)) 0 = array_at ?s 0"
    by blast
  then have same: "array_at (snd (buildMerkleRoot first32 (JSArray 0) ?s)) 0 = ?hs"
    by (simp add: array_at_def)
  have copy: "array_at ?t 1 = array_at ?s 0"
    by (simp add: new_array_def array_at_def)
  with inst [THEN conjunct2, THEN conjunct1]
  have "fst (buildMerkleRoot first32 (JSArray 1) ?t) = fst (buildMerkleRoot first32 (JSArray 0) ?s)"
    by blast
  with lt same copy show ?thesis
    by (intro conjI)
qed

section \<open>Read streams\<close>

text \<open>
  What \<open>fs.createReadStream(path, { highWaterMark })\<close> emits belongs to the file system:
  the buffers of the \<open>'data'\<close> events in order, and then either \<open>'end'\<close> or
  \<open>'error'\<close> with an error object. An exception thrown while the stream is created
  rejects the promise like an \<open>'error'\<close> event that comes before any data.
\<close>

datatype stream_outcome = End | Failed js_error

datatype read_stream = ReadStream (delivered: "byte list list") (outcome: stream_outcome)

definition clamp_index :: "int \<Rightarrow> nat \<Rightarrow> nat" where
  \<comment> \<open>an index of \<open>slice\<close>: a negative one counts from the end, and both ends are clamped\<close>
  "clamp_index i len = (if i < 0 then nat (max 0 (int len + i)) else min (nat i) len)"

definition buffer_slice :: "byte list \<Rightarrow> int \<Rightarrow> int \<Rightarrow> byte list" where
  \<comment> \<open>\<open>buf.slice(start, end)\<close>\<close>
  "buffer_slice buf start end =
     (let s = clamp_index start (length buf); e = clamp_index end (length buf)
      in take (e - s) (drop s buf))"

section \<open>generateChunkHashes.js\<close>

definition DEFAULT_CHUNK_SIZE :: int where
  "DEFAULT_CHUNK_SIZE = 1024 * 1024"

definition is_js_whitespace :: "char \<Rightarrow> bool" where
  \<comment> \<open>the white space and line terminators that \<open>trim\<close> removes, among code units below 256\<close>
  "is_js_whitespace c = ((of_char c :: nat) \<in> {9, 10, 11, 12, 13, 32, 160})"

definition trim :: "string \<Rightarrow> string" where
  "trim str = rev (dropWhile is_js_whitespace (rev (dropWhile is_js_whitespace str)))"

record hasher_state =
  hashes :: "string list"
  currentHash :: hash_object
  bytesInCurrentChunk :: int

text \<open>
  The \<open>while\<close> loop of the \<open>'data'\<close> handler. It makes no progress when no byte is left
  to fill in the current chunk, so as a function of arbitrary arguments it may not return.
\<close>

partial_function (option) on_data_loop ::
  "hashfn \<Rightarrow> int \<Rightarrow> byte list \<Rightarrow> int \<Rightarrow> hasher_state \<Rightarrow> hasher_state option" where
  "on_data_loop H chunkSize chunk offset st =
     (if offset < int (length chunk) then
        (let remaining = chunkSize - bytesInCurrentChunk st;
             slice = buffer_slice chunk offset (offset + remaining);
             st1 = st\<lparr>currentHash := update (currentHash st) slice,
                      bytesInCurrentChunk := bytesInCurrentChunk st + int (length slice)\<rparr>;
             offset1 = offset + int (length slice);
             st2 = (if bytesInCurrentChunk st1 = chunkSize
                    then st1\<lparr>hashes := hashes st1 @ [digest_hex H (currentHash st1)],
                             currentHash := createHash,
                             bytesInCurrentChunk := 0\<rparr>
                    else st1)
         in on_data_loop H chunkSize chunk offset1 st2)
      else Some st)"

declare on_data_loop.simps [code]

fun on_data_events ::
  "hashfn \<Rightarrow> int \<Rightarrow> byte list list \<Rightarrow> hasher_state \<Rightarrow> hasher_state option" where
  \<comment> \<open>the \<open>'data'\<close> handler run on each buffer in turn, each starting at offset 0\<close>
  "on_data_events H chunkSize [] st = Some st"
| "on_data_events H chunkSize (chunk # rest) st =
     (case on_data_loop H chunkSize chunk 0 st of
        None \<Rightarrow> None
      | Some st' \<Rightarrow> on_data_events H chunkSize rest st')"

definition on_end :: "hashfn \<Rightarrow> hasher_state \<Rightarrow> string list" where
  \<comment> \<open>the \<open>'end'\<close> handler: the bytes left over are the last, shorter chunk\<close>
  "on_end H st =
     (if bytesInCurrentChunk st > 0 then hashes st @ [digest_hex H (currentHash st)]
      else hashes st)"

text \<open>
  The promise of \<open>generateChunkHashes\<close>: \<open>Inl\<close> is a rejection, \<open>Inr\<close> the resolved
  array, \<open>None\<close> a promise that never settles. An argument \<open>undefined\<close> selects the default
  chunk size.
\<close>

definition generateChunkHashes ::
  "hashfn \<Rightarrow> js_value \<Rightarrow> js_value \<Rightarrow> read_stream \<Rightarrow> (js_error + string list) option" where
  "generateChunkHashes H filePath chunkSizeArg stream =
     (let chunkSize = (if chunkSizeArg = JSUndefined then JSNumber (Integral DEFAULT_CHUNK_SIZE)
                       else chunkSizeArg)
      in case filePath of
           JSString path \<Rightarrow>
             if trim path = [] then Some (Inl TypeError)
             else
               (case chunkSize of
                  JSNumber (Integral n) \<Rightarrow>
                    if n \<le> 0 then Some (Inl RangeError)
                    else
                      (case on_data_events H n (delivered stream)
                              \<lparr>hashes = [], currentHash = createHash, bytesInCurrentChunk = 0\<rparr> of
                         None \<Rightarrow> None
                       | Some st \<Rightarrow>
                           (case outcome stream of
                              Failed err \<Rightarrow> Some (Inl err)
                            | End \<Rightarrow> Some (Inr (on_end H st))))
                | _ \<Rightarrow> Some (Inl RangeError))
         | _ \<Rightarrow> Some (Inl TypeError))"

section \<open>chunkHasher.js and hasher.js\<close>

primrec chunkHasher_on_data :: "hashfn \<Rightarrow> byte list list \<Rightarrow> string list \<Rightarrow> string list" where
  \<comment> \<open>the \<open>'data'\<close> handler of chunkHasher.js on each buffer in turn: one digest a buffer\<close>
  "chunkHasher_on_data H [] chunkHashes = chunkHashes"
| "chunkHasher_on_data H (chunk # rest) chunkHashes =
     chunkHasher_on_data H rest (chunkHashes @ [digest_hex H (update createHash chunk)])"

definition chunkHasher_generateChunkHashes ::
  "hashfn \<Rightarrow> js_value \<Rightarrow> js_value \<Rightarrow> read_stream \<Rightarrow> js_error + string list" where
  \<comment> \<open>\<open>generateChunkHashes\<close> of chunkHasher.js: neither argument is examined; both go to
      \<open>createReadStream\<close>\<close>
  "chunkHasher_generateChunkHashes H filePath chunkSizeArg stream =
     (case outcome stream of
        Failed err \<Rightarrow> Inl err
      | End \<Rightarrow> Inr (chunkHasher_on_data H (delivered stream) []))"

primrec generateFileHash_on_data :: "byte list list \<Rightarrow> hash_object \<Rightarrow> hash_object" where
  "generateFileHash_on_data [] hash = hash"
| "generateFileHash_on_data (chunk # rest) hash = generateFileHash_on_data rest (update hash chunk)"

definition generateFileHash :: "hashfn \<Rightarrow> js_value \<Rightarrow> read_stream \<Rightarrow> js_error + string" where
  "generateFileHash H filePath stream =
     (case outcome stream of
        Failed err \<Rightarrow> Inl err
      | End \<Rightarrow> Inr (digest_hex H (generateFileHash_on_data (delivered stream) createHash)))"

text \<open>
  The chunks in the words of the specification: consecutive windows of \<open>n\<close> bytes, the
  last one possibly shorter.
\<close>

function spec_windows :: "nat \<Rightarrow> 'a list \<Rightarrow> 'a list list" where
  "spec_windows n bs = (if n = 0 \<or> bs = [] then [] else take n bs # spec_windows n (drop n bs))"
  by pat_completeness auto
termination
  by (relation "measure (\<lambda>(n, bs). length bs)") auto

declare spec_windows.simps [simp del]

section \<open>Properties of the chunk hashers\<close>

lemma windows_Nil: "spec_windows n [] = []"
  by (simp add: spec_windows.simps)

lemma windows_Cons:
  "0 < n \<Longrightarrow> bs \<noteq> [] \<Longrightarrow> spec_windows n bs = take n bs # spec_windows n (drop n bs)"
  by (subst spec_windows.simps) simp

lemma windows_single:
  assumes "0 < length w" and "length w \<le> n"
  shows "spec_windows n w = [w]"
proof -
  from assms have "0 < n"
    by linarith
  moreover from assms(1) have "w \<noteq> []"
    by auto
  ultimately have "spec_windows n w = take n w # spec_windows n (drop n w)"
    by (rule windows_Cons)
  with assms(2) show ?thesis
    by (simp add: windows_Nil)
qed

lemma windows_append:
  "0 < n \<Longrightarrow> length xs = k * n \<Longrightarrow> spec_windows n (xs @ ys) = spec_windows n xs @ spec_windows n ys"
proof (induction k arbitrary: xs)
  case 0
  then show ?case by (simp add: windows_Nil)
next
  case (Suc k)
  from Suc.prems have ne: "xs \<noteq> []" and len: "n \<le> length xs"
    by auto
  have rest: "length (drop n xs) = k * n"
    using Suc.prems by simp
  have "spec_windows n (xs @ ys) = take n xs # spec_windows n (drop n xs @ ys)"
    using Suc.prems(1) ne len by (subst windows_Cons) simp_all
  also have "\<dots> = take n xs # spec_windows n (drop n xs) @ spec_windows n ys"
    using Suc.IH [OF Suc.prems(1) rest] by simp
  also have "\<dots> = spec_windows n xs @ spec_windows n ys"
    using Suc.prems(1) ne by (simp add: windows_Cons [of n xs])
  finally show ?case .
qed

lemma length_windows: "0 < n \<Longrightarrow> length (spec_windows n bs) = (length bs + n - 1) div n"
proof (induction n bs rule: spec_windows.induct)
  case (1 n bs)
  show ?case
  proof (cases "bs = []")
    case True
    with "1.prems" show ?thesis
      by (simp add: windows_Nil)
  next
    case False
    with "1.prems" "1.IH" have ih: "length (spec_windows n (drop n bs)) = (length bs - n + n - 1) div n"
      by simp
    show ?thesis
    proof (cases "n \<le> length bs")
      case True
      then have "(length bs + n - 1) div n = Suc ((length bs - n + n - 1) div n)"
        using "1.prems" le_div_geq [of n "length bs + n - 1"] by simp
      with ih False "1.prems" show ?thesis
        by (simp add: windows_Cons)
    next
      case short: False
      with False "1.prems" have "(length bs + n - 1) div n = 1"
        by (intro div_nat_eqI) (cases bs, simp_all)
      with short False "1.prems" show ?thesis
        by (simp add: windows_Cons windows_Nil)
    qed
  qed
qed

definition chunk_digest :: "hashfn \<Rightarrow> byte list \<Rightarrow> string" where
  \<comment> \<open>the hexadecimal digest of one chunk\<close>
  "chunk_digest H w = hex_encode (H w)"

definition state_after :: "hashfn \<Rightarrow> nat \<Rightarrow> byte list \<Rightarrow> hasher_state" where
  \<comment> \<open>the state of the handlers once the bytes \<open>bs\<close> have been consumed: the digests of
      the complete chunks, and the bytes of the chunk that is still open\<close>
  "state_after H n bs =
     \<lparr>hashes = map (chunk_digest H) (spec_windows n (take (length bs - length bs mod n) bs)),
      currentHash = drop (length bs - length bs mod n) bs,
      bytesInCurrentChunk = int (length bs mod n)\<rparr>"

lemma state_after_append:
  assumes n: "0 < n" and le: "length bs mod n + length piece \<le> n"
  shows "state_after H n (bs @ piece) =
    (if length bs mod n + length piece = n
     then \<lparr>hashes = hashes (state_after H n bs)
                @ [chunk_digest H (currentHash (state_after H n bs) @ piece)],
           currentHash = [], bytesInCurrentChunk = 0\<rparr>
     else \<lparr>hashes = hashes (state_after H n bs),
           currentHash = currentHash (state_after H n bs) @ piece,
           bytesInCurrentChunk = int (length bs mod n + length piece)\<rparr>)"
proof -
  define r where "r = length bs mod n"
  define k where "k = length bs - r"
  have kr: "length bs = k + r" and k: "k = (length bs div n) * n"
    unfolding k_def r_def by (simp_all add: minus_mod_eq_div_mult)
  have md: "(length bs + length piece) mod n = (r + length piece) mod n"
    unfolding r_def by (simp add: mod_add_left_eq)
  show ?thesis
  proof (cases "r + length piece = n")
    case True
    have zero: "(length bs + length piece) mod n = 0"
      unfolding md True by simp
    have split: "bs @ piece = take k bs @ (drop k bs @ piece)"
      by simp
    have "spec_windows n (bs @ piece) = spec_windows n (take k bs) @ spec_windows n (drop k bs @ piece)"
      unfolding split using n k kr by (intro windows_append [where k = "length bs div n"]) simp_all
    also have "spec_windows n (drop k bs @ piece) = [drop k bs @ piece]"
      using True n kr by (intro windows_single) simp_all
    finally show ?thesis
      using True by (simp add: state_after_def zero r_def [symmetric] k_def [symmetric])
  next
    case False
    with le have less: "r + length piece < n"
      by (simp add: r_def)
    then have md': "(length bs + length piece) mod n = r + length piece"
      unfolding md by simp
    have "length bs + length piece - (r + length piece) = k"
      using kr by simp
    moreover have "k \<le> length bs"
      using kr by simp
    ultimately show ?thesis
      using False by (simp add: state_after_def md' r_def [symmetric] k_def [symmetric])
  qed
qed

lemma buffer_slice_forward:
  assumes "offset \<le> length chunk" and "0 < remaining"
  shows "buffer_slice chunk (int offset) (int offset + int remaining)
         = take remaining (drop offset chunk)"
proof -
  have "clamp_index (int offset) (length chunk) = offset"
    using assms(1) by (simp add: clamp_index_def)
  moreover have "clamp_index (int offset + int remaining) (length chunk)
      = min (offset + remaining) (length chunk)"
    by (simp add: clamp_index_def nat_add_distrib)
  moreover have "take (min (offset + remaining) (length chunk) - offset) (drop offset chunk)
      = take remaining (drop offset chunk)"
    using assms(1) by (cases "offset + remaining \<le> length chunk") (simp_all add: min_def)
  ultimately show ?thesis
    by (simp add: buffer_slice_def)
qed

lemma on_data_loop_state_after:
  assumes "0 < n" and "offset \<le> length chunk"
  shows "on_data_loop H (int n) chunk (int offset) (state_after H n (pre @ take offset chunk))
         = Some (state_after H n (pre @ chunk))"
  using assms(2)
proof (induction "length chunk - offset" arbitrary: offset rule: less_induct)
  case less
  show ?case
  proof (cases "offset < length chunk")
    case False
    with less.prems have "offset = length chunk"
      by simp
    then show ?thesis
      by (subst on_data_loop.simps) simp
  next
    case True
    define bs where "bs = pre @ take offset chunk"
    define r where "r = length bs mod n"
    define piece where "piece = take (n - r) (drop offset chunk)"
    have r: "r < n"
      using assms(1) by (simp add: r_def)
    have sl: "buffer_slice chunk (int offset) (int offset + (int n - int r)) = piece"
      using buffer_slice_forward [of offset chunk "n - r"] less.prems r
      by (simp add: piece_def of_nat_diff)
    have m: "0 < length piece" "length piece \<le> n - r" "offset + length piece \<le> length chunk"
      using True r by (simp_all add: piece_def)
    have le: "length bs mod n + length piece \<le> n"
      using m(2) r by (simp add: r_def)
    have next_bytes: "pre @ take (offset + length piece) chunk = bs @ piece"
      by (simp add: bs_def piece_def take_add min_def)
    have dec: "length chunk - (offset + length piece) < length chunk - offset"
      using m(1) True by linarith
    have ih: "on_data_loop H (int n) chunk (int (offset + length piece))
        (state_after H n (bs @ piece)) = Some (state_after H n (pre @ chunk))"
      using less.hyps [OF dec m(3)] by (simp only: next_bytes)
    have eq: "int r + int (length piece) = int n \<longleftrightarrow> r + length piece = n"
      by linarith
    obtain hs cur where st: "state_after H n bs =
        \<lparr>hashes = hs, currentHash = cur, bytesInCurrentChunk = int r\<rparr>"
      by (simp add: state_after_def r_def)
    have app: "state_after H n (bs @ piece) =
       (if r + length piece = n
        then \<lparr>hashes = hs @ [chunk_digest H (cur @ piece)], currentHash = [],
               bytesInCurrentChunk = 0\<rparr>
        else \<lparr>hashes = hs, currentHash = cur @ piece,
               bytesInCurrentChunk = int (r + length piece)\<rparr>)"
      using state_after_append [OF assms(1) le, of H] by (simp add: st r_def [symmetric])
    have "on_data_loop H (int n) chunk (int offset) (state_after H n bs) =
        on_data_loop H (int n) chunk (int (offset + length piece)) (state_after H n (bs @ piece))"
      unfolding app st
      by (subst on_data_loop.simps [of H "int n" chunk "int offset"])
        (simp add: True Let_def sl eq update_def createHash_def digest_hex_def chunk_digest_def)
    with ih show ?thesis
      by (simp only: bs_def)
  qed
qed

lemma on_data_events_state_after:
  "0 < n \<Longrightarrow> on_data_events H (int n) chunks (state_after H n pre)
     = Some (state_after H n (pre @ concat chunks))"
proof (induction chunks arbitrary: pre)
  case Nil
  show ?case by simp
next
  case (Cons chunk chunks)
  have "on_data_loop H (int n) chunk (int 0) (state_after H n (pre @ take 0 chunk))
      = Some (state_after H n (pre @ chunk))"
    using Cons.prems by (intro on_data_loop_state_after) simp_all
  then show ?case
    using Cons.IH [OF Cons.prems, of "pre @ chunk"] by simp
qed

lemma on_end_state_after:
  assumes "0 < n"
  shows "on_end H (state_after H n bs) = map (chunk_digest H) (spec_windows n bs)"
proof -
  define r where "r = length bs mod n"
  define k where "k = length bs - r"
  have kr: "length bs = k + r" and k: "k = (length bs div n) * n"
    unfolding k_def r_def by (simp_all add: minus_mod_eq_div_mult)
  have r: "r < n"
    using assms by (simp add: r_def)
  have "spec_windows n (take k bs @ drop k bs) = spec_windows n (take k bs) @ spec_windows n (drop k bs)"
    using assms k kr by (intro windows_append [where k = "length bs div n"]) simp_all
  then have split: "spec_windows n bs = spec_windows n (take k bs) @ spec_windows n (drop k bs)"
    by simp
  show ?thesis
  proof (cases "r = 0")
    case True
    with kr have "drop k bs = []"
      by simp
    with split True show ?thesis
      by (simp add: on_end_def state_after_def r_def [symmetric] k_def [symmetric] windows_Nil)
  next
    case False
    have "spec_windows n (drop k bs) = [drop k bs]"
      using False r kr by (intro windows_single) simp_all
    with split False show ?thesis
      by (simp add: on_end_def state_after_def r_def [symmetric] k_def [symmetric]
          digest_hex_def chunk_digest_def)
  qed
qed

lemma state_after_Nil:
  "state_after H n [] = \<lparr>hashes = [], currentHash = createHash, bytesInCurrentChunk = 0\<rparr>"
  by (simp add: state_after_def windows_Nil createHash_def)

lemma on_data_events_initial:
  assumes "0 < n"
  shows "on_data_events H n chunks
      \<lparr>hashes = [], currentHash = createHash, bytesInCurrentChunk = 0\<rparr>
    = Some (state_after H (nat n) (concat chunks))"
  using on_data_events_state_after [of "nat n" H chunks "[]"] assms
  by (simp add: state_after_Nil)

lemma generateChunkHashes_windows:
  assumes "trim path \<noteq> []" and "0 < n"
  shows "generateChunkHashes H (JSString path) (JSNumber (Integral n)) (ReadStream chunks End)
    = Some (Inr (map (chunk_digest H) (spec_windows (nat n) (concat chunks))))"
  using assms
  by (simp add: generateChunkHashes_def on_data_events_initial on_end_state_after)

lemma generateChunkHashes_failed:
  assumes "trim path \<noteq> []" and "0 < n"
  shows "generateChunkHashes H (JSString path) (JSNumber (Integral n)) (ReadStream chunks (Failed err))
    = Some (Inl err)"
  using assms by (simp add: generateChunkHashes_def on_data_events_initial)

lemma generateChunkHashes_bad_size:
  assumes "trim path \<noteq> []" and "chunkSizeArg \<noteq> JSUndefined"
    and "\<forall>n. chunkSizeArg = JSNumber (Integral n) \<longrightarrow> n \<le> 0"
  shows "generateChunkHashes H (JSString path) chunkSizeArg stream = Some (Inl RangeError)"
  using assms
  by (auto simp: generateChunkHashes_def split: js_value.splits js_number.splits)

lemma generateChunkHashes_bad_path:
  assumes "\<forall>path. filePath = JSString path \<longrightarrow> trim path = []"
  shows "generateChunkHashes H filePath chunkSizeArg stream = Some (Inl TypeError)"
  using assms by (auto simp: generateChunkHashes_def Let_def split: js_value.splits)

lemma generateChunkHashes_default:
  "generateChunkHashes H filePath JSUndefined stream
   = generateChunkHashes H filePath (JSNumber (Integral DEFAULT_CHUNK_SIZE)) stream"
  by (simp add: generateChunkHashes_def)

lemma generateChunkHashes_settles:
  "\<exists>r. generateChunkHashes H filePath chunkSizeArg stream = Some r"
proof -
  have "\<exists>r. (case on_data_events H n (delivered stream)
                  \<lparr>hashes = [], currentHash = createHash, bytesInCurrentChunk = 0\<rparr> of
               None \<Rightarrow> None
             | Some st \<Rightarrow> (case outcome stream of
                            Failed err \<Rightarrow> Some (Inl err)
                          | End \<Rightarrow> Some (Inr (on_end H st)))) = Some r"
    if "0 < n" for n
    by (cases "outcome stream") (simp_all add: on_data_events_initial [OF that])
  then show ?thesis
    by (auto simp: generateChunkHashes_def DEFAULT_CHUNK_SIZE_def
        split: js_value.splits js_number.splits)
qed

lemma generateChunkHashes_partition_independent:
  assumes "trim path \<noteq> []" and "0 < n" and "concat chunks' = concat chunks"
  shows "generateChunkHashes H (JSString path) (JSNumber (Integral n)) (ReadStream chunks' End)
    = generateChunkHashes H (JSString path) (JSNumber (Integral n)) (ReadStream chunks End)"
  using assms by (simp add: generateChunkHashes_windows)

lemma chunkHasher_on_data_map:
  "chunkHasher_on_data H chunks acc = acc @ map (chunk_digest H) chunks"
  by (induction chunks arbitrary: acc)
    (simp_all add: digest_hex_def update_def createHash_def chunk_digest_def)

lemma generateFileHash_on_data_concat:
  "generateFileHash_on_data chunks hash = hash @ concat chunks"
  by (induction chunks arbitrary: hash) (simp_all add: update_def)

subsection \<open>The claims about the chunk hashers\<close>

text \<open>
  C2 holds of \<open>generateChunkHashes\<close> in generateChunkHashes.js
  (\<open>generateChunkHashes_windows\<close>, \<open>generateChunkHashes_partition_independent\<close>), and
  fails of the function of the same name in chunkHasher.js: a source of four bytes read with
  chunk size 4 gives one digest when it arrives in one buffer and two digests when it
  arrives in two buffers of two bytes, where the function of generateChunkHashes.js gives
  the digest of the four bytes.
\<close>

theorem chunkHasher_depends_on_delivery:
  "chunkHasher_generateChunkHashes H filePath chunkSizeArg (ReadStream [[1, 2], [3, 4]] End)
     = Inr [hex_encode (H [1, 2]), hex_encode (H [3, 4])]
   \<and> chunkHasher_generateChunkHashes H filePath chunkSizeArg (ReadStream [[1, 2, 3, 4]] End)
     = Inr [hex_encode (H [1, 2, 3, 4])]
   \<and> generateChunkHashes H (JSString ''/tmp/x'') (JSNumber (Integral 4))
       (ReadStream [[1, 2], [3, 4]] End)
     = Some (Inr [hex_encode (H [1, 2, 3, 4])])"
proof -
  have "trim ''/tmp/x'' \<noteq> []"
    by (simp add: trim_def is_js_whitespace_def)
  then have "generateChunkHashes H (JSString ''/tmp/x'') (JSNumber (Integral 4))
       (ReadStream [[1, 2], [3, 4]] End)
     = Some (Inr (map (chunk_digest H) (spec_windows (nat 4) (concat [[1, 2], [3, 4]]))))"
    by (rule generateChunkHashes_windows) simp
  moreover have "spec_windows (nat 4) (concat [[1, 2], [3, 4]]) = [[1, 2, 3, 4 :: byte]]"
    by (simp add: windows_single)
  ultimately show ?thesis
    by (simp add: chunkHasher_generateChunkHashes_def chunkHasher_on_data_map chunk_digest_def)
qed

text \<open>
  C3. For a usable path and a positive chunk size, \<open>generateChunkHashes\<close> resolves with
  as many digests as the quotient of the source length by the chunk size, rounded up: the
  least number of chunks that cover the source. A source of no bytes gives the empty array,
  and a source of exactly \<open>k\<close> chunks gives \<open>k\<close> digests.
\<close>

theorem generateChunkHashes_chunk_count:
  assumes "trim path \<noteq> []" and "0 < n"
  shows "\<exists>ds. generateChunkHashes H (JSString path) (JSNumber (Integral n)) (ReadStream chunks End)
            = Some (Inr ds)
      \<and> length ds = (length (concat chunks) + nat n - 1) div nat n
      \<and> length (concat chunks) \<le> length ds * nat n
      \<and> length ds * nat n < length (concat chunks) + nat n
      \<and> (concat chunks = [] \<longrightarrow> ds = [])
      \<and> (\<forall>k. length (concat chunks) = k * nat n \<longrightarrow> length ds = k)"
proof -
  define m where "m = nat n"
  define len where "len = length (concat chunks)"
  define ds where "ds = map (chunk_digest H) (spec_windows m (concat chunks))"
  have m: "0 < m"
    using assms(2) by (simp add: m_def)
  have run: "generateChunkHashes H (JSString path) (JSNumber (Integral n)) (ReadStream chunks End)
            = Some (Inr ds)"
    unfolding ds_def m_def by (rule generateChunkHashes_windows [OF assms])
  have count: "length ds = (len + m - 1) div m"
    using m by (simp add: ds_def len_def length_windows)
  have "(len + m - 1) div m * m \<le> len + m - 1"
    by (rule div_times_less_eq_dividend)
  with m have upper: "length ds * m < len + m"
    unfolding count by linarith
  have "len + m - 1 < m + (len + m - 1) div m * m"
    using m by (rule dividend_less_div_times)
  with m have lower: "len \<le> length ds * m"
    unfolding count by linarith
  have empty: "ds = []" if "concat chunks = []"
    unfolding ds_def that by (simp add: windows_Nil)
  have exact: "length ds = k" if "len = k * m" for k
    unfolding count that using m by (intro div_nat_eqI) (simp_all add: algebra_simps)
  from run count lower upper empty exact show ?thesis
    unfolding m_def len_def by blast
qed

theorem generateChunkHashes_chunk_count_witness:
  "trim ''data.bin'' \<noteq> [] \<and> (0::int) < 2
   \<and> (\<exists>ds. generateChunkHashes first32 (JSString ''data.bin'') (JSNumber (Integral 2))
              (ReadStream [[1, 2, 3], [4]] End) = Some (Inr ds) \<and> length ds = 2)
   \<and> generateChunkHashes first32 (JSString ''data.bin'') (JSNumber (Integral 2))
              (ReadStream [] End) = Some (Inr [])"
proof -
  have p: "trim ''data.bin'' \<noteq> []"
    by (simp add: trim_def is_js_whitespace_def)
  have n: "(0::int) < 2"
    by simp
  from generateChunkHashes_chunk_count [OF p n, of first32 "[[1, 2, 3], [4]]"]
  obtain ds where "generateChunkHashes first32 (JSString ''data.bin'') (JSNumber (Integral 2))
              (ReadStream [[1, 2, 3], [4]] End) = Some (Inr ds)"
    and "length ds = (length (concat [[1, 2, 3], [4 :: byte]]) + nat 2 - 1) div nat 2"
    by blast
  then have full: "\<exists>ds. generateChunkHashes first32 (JSString ''data.bin'') (JSNumber (Integral 2))
              (ReadStream [[1, 2, 3], [4]] End) = Some (Inr ds) \<and> length ds = 2"
    by simp
  from generateChunkHashes_chunk_count [OF p n, of first32 "[]"]
  have none: "generateChunkHashes first32 (JSString ''data.bin'') (JSNumber (Integral 2))
              (ReadStream [] End) = Some (Inr [])"
    by auto
  from p n full none show ?thesis
    by (intro conjI)
qed

text \<open>
  C9 holds of \<open>generateChunkHashes\<close> in generateChunkHashes.js for every chunk size
  argument other than \<open>undefined\<close> (\<open>generateChunkHashes_bad_size\<close>,
  \<open>generateChunkHashes_bad_path\<close>, \<open>generateChunkHashes_failed\<close>), and fails of the
  function of the same name in chunkHasher.js, which examines no argument: with chunk size
  0 it resolves with one digest for each buffer that the stream delivers.
\<close>

theorem chunkHasher_accepts_any_chunk_size:
  "chunkHasher_generateChunkHashes H filePath chunkSizeArg (ReadStream chunks End)
     = Inr (map (\<lambda>chunk. hex_encode (H chunk)) chunks)
   \<and> chunkHasher_generateChunkHashes H (JSString ''/tmp/x'') (JSNumber (Integral 0))
       (ReadStream [] End) = Inr []
   \<and> generateChunkHashes H (JSString ''/tmp/x'') (JSNumber (Integral 0)) stream
     = Some (Inl RangeError)"
proof -
  have "trim ''/tmp/x'' \<noteq> []"
    by (simp add: trim_def is_js_whitespace_def)
  then have "generateChunkHashes H (JSString ''/tmp/x'') (JSNumber (Integral 0)) stream
     = Some (Inl RangeError)"
    by (rule generateChunkHashes_bad_size) simp_all
  moreover have "map (chunk_digest H) chunks = map (\<lambda>chunk. hex_encode (H chunk)) chunks"
    by (simp add: chunk_digest_def)
  ultimately show ?thesis
    by (simp add: chunkHasher_generateChunkHashes_def chunkHasher_on_data_map)
qed

text \<open>
  C10. For a usable path, a positive chunk size and a source that is not empty and not
  longer than the chunk size, \<open>generateChunkHashes\<close> resolves with one digest, and
  \<open>generateFileHash\<close> resolves with the same digest over the same bytes, whatever the
  buffers are in which each of the two streams delivers them.
\<close>

theorem single_chunk_equals_file_hash:
  assumes "trim path \<noteq> []" and "0 < n" and "concat chunks \<noteq> []"
    and "length (concat chunks) \<le> nat n" and "concat chunks' = concat chunks"
  shows "generateChunkHashes H (JSString path) (JSNumber (Integral n)) (ReadStream chunks End)
           = Some (Inr [hex_encode (H (concat chunks))])
    \<and> generateFileHash H filePath (ReadStream chunks' End) = Inr (hex_encode (H (concat chunks)))"
proof -
  have "spec_windows (nat n) (concat chunks) = [concat chunks]"
    using assms(3,4) by (intro windows_single) simp_all
  then have "generateChunkHashes H (JSString path) (JSNumber (Integral n)) (ReadStream chunks End)
           = Some (Inr [hex_encode (H (concat chunks))])"
    by (simp add: generateChunkHashes_windows [OF assms(1,2)] chunk_digest_def)
  moreover have "generateFileHash H filePath (ReadStream chunks' End)
      = Inr (hex_encode (H (concat chunks)))"
    by (simp add: generateFileHash_def generateFileHash_on_data_concat createHash_def
        digest_hex_def assms(5))
  ultimately show ?thesis ..
qed

theorem single_chunk_equals_file_hash_witness:
  "trim ''hello.txt'' \<noteq> [] \<and> (0::int) < 1024
   \<and> concat [[72, 101], [108, 108, 111 :: byte]] \<noteq> []
   \<and> length (concat [[72, 101], [108, 108, 111 :: byte]]) \<le> nat 1024
   \<and> concat [[72, 101, 108, 108, 111 :: byte]] = concat [[72, 101], [108, 108, 111]]
   \<and> generateChunkHashes first32 (JSString ''hello.txt'') (JSNumber (Integral 1024))
        (ReadStream [[72, 101], [108, 108, 111]] End)
      = Some (Inr [hex_encode (first32 (concat [[72, 101], [108, 108, 111]]))])
   \<and> generateFileHash first32 (JSString ''hello.txt'') (ReadStream [[72, 101, 108, 108, 111]] End)
      = Inr (hex_encode (first32 (concat [[72, 101], [108, 108, 111]])))"
proof -
  have p: "trim ''hello.txt'' \<noteq> []"
    by (simp add: trim_def is_js_whitespace_def)
  have n: "(0::int) < 1024"
    by simp
  have ne: "concat [[72, 101], [108, 108, 111 :: byte]] \<noteq> []"
    by simp
  have le: "length (concat [[72, 101], [108, 108, 111 :: byte]]) \<le> nat 1024"
    by simp
  have same: "concat [[72, 101, 108, 108, 111 :: byte]] = concat [[72, 101], [108, 108, 111]]"
    by simp
  from p n ne le same
    single_chunk_equals_file_hash [OF p n ne le same, of first32 "JSString ''hello.txt''"]
  show ?thesis
    by (intro conjI) (elim conjE, assumption)+
qed

end
